theory Spec2Isabelle
  imports Complex_Main "HOL-Library.Signed_Division" "HOL-Library.List_Lexorder"
    "HOL-Library.Char_ord" "HOL-Library.Product_Lexorder" "HOL-Library.Multiset"
begin

section \<open>Data model\<close>

subsection \<open>Types as reflection sees them\<close>

text \<open>
  The constants of Go's \<^verbatim>\<open>reflect.Kind\<close>, in their declaration order; \<open>kind_code\<close> is
  the numeric value the source compares with \<^verbatim>\<open>k >= reflect.Int && k <= reflect.Int64\<close>.
\<close>

datatype kind =
    Invalid_k | Bool_k
  | Int_k | Int8_k | Int16_k | Int32_k | Int64_k
  | Uint_k | Uint8_k | Uint16_k | Uint32_k | Uint64_k | Uintptr_k
  | Float32_k | Float64_k | Complex64_k | Complex128_k
  | Array_k | Chan_k | Func_k | Interface_k | Map_k | Ptr_k | Slice_k | String_k
  | Struct_k | UnsafePointer_k

fun kind_code :: "kind \<Rightarrow> nat" where
  "kind_code Invalid_k = 0"
| "kind_code Bool_k = 1"
| "kind_code Int_k = 2"
| "kind_code Int8_k = 3"
| "kind_code Int16_k = 4"
| "kind_code Int32_k = 5"
| "kind_code Int64_k = 6"
| "kind_code Uint_k = 7"
| "kind_code Uint8_k = 8"
| "kind_code Uint16_k = 9"
| "kind_code Uint32_k = 10"
| "kind_code Uint64_k = 11"
| "kind_code Uintptr_k = 12"
| "kind_code Float32_k = 13"
| "kind_code Float64_k = 14"
| "kind_code Complex64_k = 15"
| "kind_code Complex128_k = 16"
| "kind_code Array_k = 17"
| "kind_code Chan_k = 18"
| "kind_code Func_k = 19"
| "kind_code Interface_k = 20"
| "kind_code Map_k = 21"
| "kind_code Ptr_k = 22"
| "kind_code Slice_k = 23"
| "kind_code String_k = 24"
| "kind_code Struct_k = 25"
| "kind_code UnsafePointer_k = 26"

text \<open>
  A struct tag in the conventional format is a sequence of \<^verbatim>\<open>key:"value"\<close> pairs;
  \<^verbatim>\<open>Tag.Get(key)\<close> returns the value of the first pair with that key and the empty
  string when there is none.
\<close>

type_synonym StructTag = "(string \<times> string) list"

fun Get :: "StructTag \<Rightarrow> string \<Rightarrow> string" where
  "Get [] key = ''''"
| "Get ((k, v) # kvs) key = (if k = key then v else Get kvs key)"

text \<open>
  What \<^verbatim>\<open>newTagHeap\<close> reads of a \<^verbatim>\<open>reflect.StructField\<close>: the tag, the package path
  (empty exactly for exported fields) and the kind of the field's type.
\<close>

record StructField =
  Tag :: StructTag
  PkgPath :: string
  Type_Kind :: kind

text \<open>
  Types, as far as the constructor looks into them: pointer, slice and struct types, and
  every type of another kind (given by its name).
\<close>

datatype rtype =
    PtrTo rtype
  | SliceOf rtype
  | StructOf "StructField list"
  | OtherType string

subsection \<open>Values\<close>

text \<open>
  A float key is a NaN, an infinity or a finite number; \<open>float_less\<close> is Go's \<^verbatim>\<open><\<close> on
  floats (false whenever an operand is a NaN), \<open>float_eq\<close> is Go's \<^verbatim>\<open>==\<close>.
\<close>

datatype float = NaN | NegInf | Finite real | PosInf

fun float_less :: "float \<Rightarrow> float \<Rightarrow> bool" where
  "float_less NaN y = False"
| "float_less x NaN = False"
| "float_less x NegInf = False"
| "float_less NegInf y = True"
| "float_less PosInf y = False"
| "float_less x PosInf = True"
| "float_less (Finite x) (Finite y) = (x < y)"

fun float_eq :: "float \<Rightarrow> float \<Rightarrow> bool" where
  "float_eq NaN y = False"
| "float_eq x NaN = False"
| "float_eq x y = (x = y)"

text \<open>
  The value of a struct field, by the kind of its type: what \<^verbatim>\<open>String()\<close>, \<^verbatim>\<open>Int()\<close>,
  \<^verbatim>\<open>Uint()\<close> and \<^verbatim>\<open>Float()\<close> of \<^verbatim>\<open>reflect.Value\<close> read. Keys are only compared and never
  computed with, so the signed and unsigned integers are the numbers themselves.
\<close>

datatype fval = VString string | VInt int | VUint nat | VFloat float | VOther

text \<open>
  Records live in memory and are handled by pointer: a pointer is nil (\<open>None\<close>) or the
  address of a record; a record is the list of its field values, by field number.
\<close>

type_synonym addr = nat
type_synonym ptr = "addr option"
type_synonym memory = "addr \<Rightarrow> fval list"

text \<open>An interface value passed to \<^verbatim>\<open>Push\<close> or \<^verbatim>\<open>Remove\<close>, or returned by \<^verbatim>\<open>Pop\<close>:
  nil, or a dynamic type with a pointer value.\<close>

datatype iface = Nil_iface | Iface rtype ptr

text \<open>The argument \<^verbatim>\<open>ps\<close> of \<^verbatim>\<open>New\<close>: a nil interface, or a value of some type; where that
  type is a pointer to a slice, the value is a nil pointer (\<open>None\<close>) or points to the
  caller's slice.\<close>

datatype arg = Nil_arg | Arg rtype "ptr list option"

subsection \<open>The container\<close>

text \<open>
  The fields of \<^verbatim>\<open>tagHeap\<close>. \<open>s\<close> is the caller's slice, which the container works on in
  place; \<open>mem\<close> is not a field of the Go struct: it is the memory holding the records that
  the pointers of the slice refer to, threaded with the container because \<^verbatim>\<open>Swap\<close> and
  \<^verbatim>\<open>Push\<close> write the index field of records. A comparator returns \<open>None\<close> where the
  \<^verbatim>\<open>reflect\<close> accessor panics on a value of another kind.
\<close>

record tagHeap =
  s :: "ptr list"
  pt :: rtype
  minHeap :: bool
  keyFieldIndex :: int
  indexFieldIndex :: int
  less_fn :: "fval \<Rightarrow> fval \<Rightarrow> bool option"
  swapTemp :: ptr
  mem :: memory

text \<open>A call returns a value and the state, or panics; the state at the panic is kept.\<close>

datatype 'a outcome = Ok 'a tagHeap | Panic tagHeap

fun final :: "'a outcome \<Rightarrow> tagHeap" where
  "final (Ok x h) = h"
| "final (Panic h) = h"

fun returns :: "'a outcome \<Rightarrow> bool" where
  "returns (Ok x h) = True"
| "returns (Panic h) = False"

fun value_of :: "'a outcome \<Rightarrow> 'a option" where
  "value_of (Ok x h) = Some x"
| "value_of (Panic h) = None"

datatype error =
    ErrUntypedNil
  | ErrNotPointer
  | ErrNotSlice
  | ErrNotSliceOfPointer
  | ErrNotStruct
  | ErrKeyNotExported
  | ErrMultipleKeys
  | ErrKeyType
  | ErrIndexNotExported
  | ErrMultipleIndexes
  | ErrIndexType
  | ErrInvalidTag string
  | ErrNoKey

section \<open>The comparators\<close>

fun lessString :: "fval \<Rightarrow> fval \<Rightarrow> bool option" where
  "lessString (VString a) (VString b) = Some (a < b)"
| "lessString vi vj = None"

fun lessInt :: "fval \<Rightarrow> fval \<Rightarrow> bool option" where
  "lessInt (VInt a) (VInt b) = Some (a < b)"
| "lessInt vi vj = None"

fun lessUint :: "fval \<Rightarrow> fval \<Rightarrow> bool option" where
  "lessUint (VUint a) (VUint b) = Some (a < b)"
| "lessUint vi vj = None"

fun lessFloat :: "fval \<Rightarrow> fval \<Rightarrow> bool option" where
  "lessFloat (VFloat a) (VFloat b) = Some (float_less a b)"
| "lessFloat vi vj = None"

section \<open>Methods of heap.Interface\<close>

definition Len :: "tagHeap \<Rightarrow> int" where
  "Len h = int (length (s h))"

text \<open>\<^verbatim>\<open>s.s.Index(i)\<close> panics out of range.\<close>

definition Index :: "tagHeap \<Rightarrow> int \<Rightarrow> ptr option" where
  "Index h i = (if 0 \<le> i \<and> i < Len h then Some (s h ! nat i) else None)"

text \<open>\<^verbatim>\<open>p.Elem().Field(f)\<close> panics on a nil pointer and on a field number out of range.\<close>

definition Field :: "tagHeap \<Rightarrow> ptr \<Rightarrow> int \<Rightarrow> fval option" where
  "Field h p f =
     (case p of
        None \<Rightarrow> None
      | Some a \<Rightarrow>
          if 0 \<le> f \<and> f < int (length (mem h a)) then Some (mem h a ! nat f) else None)"

text \<open>\<^verbatim>\<open>p.Elem().Field(f).SetInt(v)\<close> panics like \<open>Field\<close>, and on a field that is not of a
  signed integer kind.\<close>

definition SetInt :: "tagHeap \<Rightarrow> ptr \<Rightarrow> int \<Rightarrow> int \<Rightarrow> tagHeap option" where
  "SetInt h p f v =
     (case p of
        None \<Rightarrow> None
      | Some a \<Rightarrow>
          if 0 \<le> f \<and> f < int (length (mem h a)) then
            (case mem h a ! nat f of
               VInt old \<Rightarrow> Some (h\<lparr>mem := (mem h)(a := (mem h a)[nat f := VInt v])\<rparr>)
             | _ \<Rightarrow> None)
          else None)"

definition Less :: "tagHeap \<Rightarrow> int \<Rightarrow> int \<Rightarrow> bool option" where
  "Less h i j =
     (case Index h i of
        None \<Rightarrow> None
      | Some p_i \<Rightarrow>
          (case Field h p_i (keyFieldIndex h) of
             None \<Rightarrow> None
           | Some vi \<Rightarrow>
               (case Index h j of
                  None \<Rightarrow> None
                | Some p_j \<Rightarrow>
                    (case Field h p_j (keyFieldIndex h) of
                       None \<Rightarrow> None
                     | Some vj \<Rightarrow>
                         (case less_fn h vi vj of
                            None \<Rightarrow> None
                          | Some b \<Rightarrow> Some (b = minHeap h))))))"

definition Swap :: "tagHeap \<Rightarrow> int \<Rightarrow> int \<Rightarrow> unit outcome" where
  "Swap h i j =
     (case Index h i of
        None \<Rightarrow> Panic h
      | Some p_i \<Rightarrow>
          let h1 = h\<lparr>swapTemp := p_i\<rparr> in
          (case Index h1 j of
             None \<Rightarrow> Panic h1
           | Some p_j \<Rightarrow>
               let h2 = h1\<lparr>s := (s h1)[nat i := p_j]\<rparr>;
                   h3 = h2\<lparr>s := (s h2)[nat j := swapTemp h2]\<rparr>
               in
                 if indexFieldIndex h3 \<ge> 0 then
                   (case SetInt h3 (s h3 ! nat i) (indexFieldIndex h3) i of
                      None \<Rightarrow> Panic h3
                    | Some h4 \<Rightarrow>
                        (case SetInt h4 (s h4 ! nat j) (indexFieldIndex h4) j of
                           None \<Rightarrow> Panic h4
                         | Some h5 \<Rightarrow> Ok () h5))
                 else Ok () h3))"

text \<open>\<^verbatim>\<open>tagHeap.Push\<close> is reached through \<^verbatim>\<open>TagHeap.Push\<close> only, after its type check; on a
  nil interface \<^verbatim>\<open>reflect.ValueOf\<close> gives the zero Value, which neither \<^verbatim>\<open>Elem\<close> nor
  \<^verbatim>\<open>reflect.Append\<close> accepts.\<close>

definition Push :: "tagHeap \<Rightarrow> iface \<Rightarrow> unit outcome" where
  "Push h u =
     (case u of
        Nil_iface \<Rightarrow> Panic h
      | Iface t np \<Rightarrow>
          if indexFieldIndex h \<ge> 0 then
            (case SetInt h np (indexFieldIndex h) (Len h) of
               None \<Rightarrow> Panic h
             | Some h1 \<Rightarrow> Ok () (h1\<lparr>s := s h1 @ [np]\<rparr>))
          else Ok () (h\<lparr>s := s h @ [np]\<rparr>))"

definition Pop :: "tagHeap \<Rightarrow> iface outcome" where
  "Pop h =
     (let l = Len h in
      if l = 0 then Ok Nil_iface h
      else
        let l = l - 1;
            r = Iface (pt h) (s h ! nat l)
        in Ok r (h\<lparr>s := take (nat l) (s h)\<rparr>))"

section \<open>The sift driver\<close>

text \<open>
  Modelled from the spec: the driver that the exported methods delegate to is Go's
  \<^verbatim>\<open>container/heap\<close> (\<^verbatim>\<open>Init\<close>, \<^verbatim>\<open>Push\<close>, \<^verbatim>\<open>Pop\<close>, \<^verbatim>\<open>Remove\<close> and its loops \<^verbatim>\<open>up\<close> and
  \<^verbatim>\<open>down\<close>), which is not under src/. The spec describes it (section 4.2): construction
  heapifies the initial contents; Push appends and sifts the new last element up, swapping
  with its parent while it compares as better; Pop swaps the root with the last element,
  sifts the new root down below the last position, descending to the better child, and
  takes the last element off; Remove swaps the target with the last element, sifts down
  at the vacated index, sifts up only when that did not move the element, and takes the
  last element off. The driver calls nothing but \<^verbatim>\<open>Len\<close>, \<^verbatim>\<open>Less\<close>, \<^verbatim>\<open>Swap\<close>, \<^verbatim>\<open>Push\<close> and
  \<^verbatim>\<open>Pop\<close> of the container. Indices are Go ints: \<open>sdiv\<close> is Go's truncating division, and
  \<^verbatim>\<open>2*i + 1\<close> cannot overflow below the length of a slice.
\<close>

function up :: "tagHeap \<Rightarrow> int \<Rightarrow> unit outcome" where
  "up h j =
     (let i = (j - 1) sdiv 2 in
      if i = j then Ok () h
      else
        (case Less h j i of
           None \<Rightarrow> Panic h
         | Some b \<Rightarrow>
             if \<not> b then Ok () h
             else
               (case Swap h i j of
                  Panic h' \<Rightarrow> Panic h'
                | Ok u h' \<Rightarrow> up h' i)))"
  by pat_completeness auto

termination up
proof (relation "measure (\<lambda>(h, j). nat j)")
  fix h :: tagHeap and j i :: int and b u h'
  assume i: "i = (j - 1) sdiv 2" and ne: "i \<noteq> j" and l: "Less h j i = Some b"
  from l have "0 \<le> j"
    by (auto simp: Less_def Index_def split: option.splits if_splits)
  with i ne have "0 < j \<and> i < j"
    by (cases "j = 0") (auto simp: signed_divide_int_def sgn_if split: if_splits)
  then show "((h', i), (h, j)) \<in> measure (\<lambda>(h, j). nat j)" by simp
qed simp

function down_loop :: "tagHeap \<Rightarrow> int \<Rightarrow> int \<Rightarrow> int outcome" where
  "down_loop h i n =
     (let j1 = 2 * i + 1 in
      if j1 \<ge> n \<or> j1 < 0 then Ok i h
      else
        (case (if j1 + 1 < n then Less h (j1 + 1) j1 else Some False) of
           None \<Rightarrow> Panic h
         | Some r \<Rightarrow>
             let j = (if r then j1 + 1 else j1) in
             (case Less h j i of
                None \<Rightarrow> Panic h
              | Some b \<Rightarrow>
                  if \<not> b then Ok i h
                  else
                    (case Swap h i j of
                       Panic h' \<Rightarrow> Panic h'
                     | Ok u h' \<Rightarrow> down_loop h' j n))))"
  by pat_completeness auto

termination down_loop
proof (relation "measure (\<lambda>(h, i, n). nat (n - i))")
  fix h :: tagHeap and i n j1 j :: int and r b u h'
  assume j1: "j1 = 2 * i + 1" and c: "\<not> (n \<le> j1 \<or> j1 < 0)"
    and j: "j = (if r then j1 + 1 else j1)"
  then show "((h', j, n), (h, i, n)) \<in> measure (\<lambda>(h, i, n). nat (n - i))"
    by (auto split: if_splits)
qed simp

definition down :: "tagHeap \<Rightarrow> int \<Rightarrow> int \<Rightarrow> bool outcome" where
  "down h i0 n =
     (case down_loop h i0 n of
        Panic h' \<Rightarrow> Panic h'
      | Ok i h' \<Rightarrow> Ok (i > i0) h')"

function init_loop :: "tagHeap \<Rightarrow> int \<Rightarrow> int \<Rightarrow> unit outcome" where
  "init_loop h i n =
     (if i \<ge> 0 then
        (case down h i n of
           Panic h' \<Rightarrow> Panic h'
         | Ok moved h' \<Rightarrow> init_loop h' (i - 1) n)
      else Ok () h)"
  by pat_completeness auto

termination init_loop
  by (relation "measure (\<lambda>(h, i, n). nat (i + 1))") simp_all

declare up.simps [simp del] down_loop.simps [simp del] init_loop.simps [simp del]

definition heap_Init :: "tagHeap \<Rightarrow> unit outcome" where
  "heap_Init h = (let n = Len h in init_loop h (n sdiv 2 - 1) n)"

definition heap_Push :: "tagHeap \<Rightarrow> iface \<Rightarrow> unit outcome" where
  "heap_Push h x =
     (case Push h x of
        Panic h' \<Rightarrow> Panic h'
      | Ok u h' \<Rightarrow> up h' (Len h' - 1))"

definition heap_Pop :: "tagHeap \<Rightarrow> iface outcome" where
  "heap_Pop h =
     (let n = Len h - 1 in
      (case Swap h 0 n of
         Panic h' \<Rightarrow> Panic h'
       | Ok u h1 \<Rightarrow>
           (case down h1 0 n of
              Panic h' \<Rightarrow> Panic h'
            | Ok moved h2 \<Rightarrow> Pop h2)))"

definition heap_Remove :: "tagHeap \<Rightarrow> int \<Rightarrow> iface outcome" where
  "heap_Remove h i =
     (let n = Len h - 1 in
      if n \<noteq> i then
        (case Swap h i n of
           Panic h' \<Rightarrow> Panic h'
         | Ok u h1 \<Rightarrow>
             (case down h1 i n of
                Panic h' \<Rightarrow> Panic h'
              | Ok moved h2 \<Rightarrow>
                  if \<not> moved then
                    (case up h2 i of
                       Panic h' \<Rightarrow> Panic h'
                     | Ok u' h3 \<Rightarrow> Pop h3)
                  else Pop h2))
      else Pop h)"

section \<open>The constructor\<close>

text \<open>The switch on the kind of the key field's type: the comparator for the kind, or none
  (the error "key field must be a string, integer, or floating point type").\<close>

definition key_less :: "kind \<Rightarrow> (fval \<Rightarrow> fval \<Rightarrow> bool option) option" where
  "key_less k =
     (if k = String_k then Some lessString
      else if kind_code k \<ge> kind_code Int_k \<and> kind_code k \<le> kind_code Int64_k
        then Some lessInt
      else if kind_code k \<ge> kind_code Uint_k \<and> kind_code k \<le> kind_code Uint64_k
        then Some lessUint
      else if k = Float64_k \<or> k = Float32_k then Some lessFloat
      else None)"

text \<open>The body of the loop over the fields of the struct type, at field number \<open>i\<close>; \<open>t\<close>
  is the container under construction. A field without a tag in the namespace leaves it
  as it is (\<^verbatim>\<open>continue\<close>).\<close>

definition scan_field :: "string \<Rightarrow> StructField \<Rightarrow> int \<Rightarrow> tagHeap \<Rightarrow> error + tagHeap" where
  "scan_field key sf i t =
     (let tv = Get (Tag sf) key in
      if tv = '''' then Inr t
      else if tv = ''min'' \<or> tv = ''max'' then
        (if PkgPath sf > '''' then Inl ErrKeyNotExported
         else if keyFieldIndex t \<ge> 0 then Inl ErrMultipleKeys
         else
           (case key_less (Type_Kind sf) of
              None \<Rightarrow> Inl ErrKeyType
            | Some f \<Rightarrow>
                Inr (t\<lparr>less_fn := f, keyFieldIndex := i,
                       minHeap := (if tv = ''min'' then True else minHeap t)\<rparr>)))
      else if tv = ''index'' then
        (if PkgPath sf > '''' then Inl ErrIndexNotExported
         else if indexFieldIndex t \<ge> 0 then Inl ErrMultipleIndexes
         else if Type_Kind sf \<noteq> Int_k then Inl ErrIndexType
         else Inr (t\<lparr>indexFieldIndex := i\<rparr>))
      else Inl (ErrInvalidTag tv))"

fun scan_fields :: "string \<Rightarrow> StructField list \<Rightarrow> int \<Rightarrow> tagHeap \<Rightarrow> error + tagHeap" where
  "scan_fields key [] i t = Inr t"
| "scan_fields key (sf # sfs) i t =
     (case scan_field key sf i t of
        Inl err \<Rightarrow> Inl err
      | Inr t' \<Rightarrow> scan_fields key sfs (i + 1) t')"

text \<open>
  \<^verbatim>\<open>newTagHeap\<close> returns an error and no container, or the container after
  \<^verbatim>\<open>heap.Init\<close> (which may panic). The nil comparator of the fresh struct panics when
  called; \<open>m\<close> is the memory holding the records of the slice.
\<close>

definition newTagHeap :: "string \<Rightarrow> arg \<Rightarrow> memory \<Rightarrow> error + unit outcome" where
  "newTagHeap key ps m =
     (case ps of
        Nil_arg \<Rightarrow> Inl ErrUntypedNil
      | Arg at_t v \<Rightarrow>
          (case at_t of
             PtrTo slct \<Rightarrow>
               (case slct of
                  SliceOf pt' \<Rightarrow>
                    (case pt' of
                       PtrTo st \<Rightarrow>
                         (case st of
                            StructOf sfs \<Rightarrow>
                              (case scan_fields key sfs 0
                                      \<lparr>s = [], pt = pt', minHeap = False, keyFieldIndex = - 1,
                                       indexFieldIndex = - 1, less_fn = (\<lambda>vi vj. None),
                                       swapTemp = None, mem = m\<rparr>
                               of
                                 Inl err \<Rightarrow> Inl err
                               | Inr t \<Rightarrow>
                                   if keyFieldIndex t < 0 then Inl ErrNoKey
                                   else
                                     (case v of
                                        None \<Rightarrow> Inr (Panic t)
                                      | Some sl \<Rightarrow> Inr (heap_Init (t\<lparr>s := sl\<rparr>))))
                          | _ \<Rightarrow> Inl ErrNotStruct)
                     | _ \<Rightarrow> Inl ErrNotSliceOfPointer)
                | _ \<Rightarrow> Inl ErrNotSlice)
           | _ \<Rightarrow> Inl ErrNotPointer))"

section \<open>The exported API\<close>

definition New :: "string \<Rightarrow> arg \<Rightarrow> memory \<Rightarrow> error + unit outcome" where
  "New key ps m =
     (case newTagHeap key ps m of
        Inl err \<Rightarrow> Inl err
      | Inr t \<Rightarrow> Inr t)"

definition TagHeap_Len :: "tagHeap \<Rightarrow> int" where
  "TagHeap_Len t = Len t"

text \<open>
  \<^verbatim>\<open>reflect.Type.AssignableTo\<close> and \<^verbatim>\<open>ConvertibleTo\<close> belong to the Go library; they are
  taken as the parameters \<open>assignableTo\<close> and \<open>convertibleTo\<close>. \<^verbatim>\<open>reflect.TypeOf\<close> of a
  nil interface is nil, and the method call on it panics.
\<close>

definition TagHeap_Push ::
  "(rtype \<Rightarrow> rtype \<Rightarrow> bool) \<Rightarrow> tagHeap \<Rightarrow> iface \<Rightarrow> unit outcome" where
  "TagHeap_Push assignableTo th u =
     (case u of
        Nil_iface \<Rightarrow> Panic th
      | Iface ut p \<Rightarrow>
          if \<not> assignableTo ut (pt th) then Panic th
          else heap_Push th u)"

definition TagHeap_Pop :: "tagHeap \<Rightarrow> iface outcome" where
  "TagHeap_Pop t = heap_Pop t"

definition TagHeap_Remove ::
  "(rtype \<Rightarrow> rtype \<Rightarrow> bool) \<Rightarrow> tagHeap \<Rightarrow> iface \<Rightarrow> iface outcome" where
  "TagHeap_Remove convertibleTo th u =
     (if indexFieldIndex th < 0 then Panic th
      else
        (case u of
           Nil_iface \<Rightarrow> Panic th
         | Iface ut p \<Rightarrow>
             if \<not> convertibleTo ut (pt th) then Panic th
             else
               (case Field th p (indexFieldIndex th) of
                  Some (VInt i) \<Rightarrow> heap_Remove th i
                | _ \<Rightarrow> Panic th)))"

section \<open>Client programs\<close>

text \<open>A caller's sequence of calls on one container; \<open>run\<close> collects what \<^verbatim>\<open>Pop\<close> and
  \<^verbatim>\<open>Remove\<close> return and stops at the first panic.\<close>

datatype op = OpPush iface | OpPop | OpRemove iface

fun run ::
  "(rtype \<Rightarrow> rtype \<Rightarrow> bool) \<Rightarrow> (rtype \<Rightarrow> rtype \<Rightarrow> bool) \<Rightarrow> op list \<Rightarrow> tagHeap \<Rightarrow> iface list outcome"
where
  "run A C [] h = Ok [] h"
| "run A C (OpPush u # ops) h =
     (case TagHeap_Push A h u of
        Panic h' \<Rightarrow> Panic h'
      | Ok x h' \<Rightarrow> run A C ops h')"
| "run A C (OpPop # ops) h =
     (case TagHeap_Pop h of
        Panic h' \<Rightarrow> Panic h'
      | Ok r h' \<Rightarrow>
          (case run A C ops h' of
             Panic h'' \<Rightarrow> Panic h''
           | Ok rs h'' \<Rightarrow> Ok (r # rs) h''))"
| "run A C (OpRemove u # ops) h =
     (case TagHeap_Remove C h u of
        Panic h' \<Rightarrow> Panic h'
      | Ok r h' \<Rightarrow>
          (case run A C ops h' of
             Panic h'' \<Rightarrow> Panic h''
           | Ok rs h'' \<Rightarrow> Ok (r # rs) h''))"

text \<open>The struct types of the repository's example and tests, and a variant whose index
  field is an \<^verbatim>\<open>int64\<close>:
  \<^verbatim>\<open>struct { N int `heap:"min"`; X int `heap:"index"` }\<close> and
  \<^verbatim>\<open>struct { vert string; Tent int `pq:"max"` }\<close>.\<close>

definition example_struct :: "StructField list" where
  "example_struct =
     [\<lparr>Tag = [(''heap'', ''min'')], PkgPath = '''', Type_Kind = Int_k\<rparr>,
      \<lparr>Tag = [(''heap'', ''index'')], PkgPath = '''', Type_Kind = Int_k\<rparr>]"

definition test_struct :: "StructField list" where
  "test_struct =
     [\<lparr>Tag = [], PkgPath = ''tagheap_test'', Type_Kind = String_k\<rparr>,
      \<lparr>Tag = [(''pq'', ''max'')], PkgPath = '''', Type_Kind = Int_k\<rparr>]"

definition int64_index_struct :: "StructField list" where
  "int64_index_struct =
     [\<lparr>Tag = [(''heap'', ''min'')], PkgPath = '''', Type_Kind = Int_k\<rparr>,
      \<lparr>Tag = [(''heap'', ''index'')], PkgPath = '''', Type_Kind = Int64_k\<rparr>]"

definition slice_ptr :: "StructField list \<Rightarrow> rtype" where
  "slice_ptr sfs = PtrTo (SliceOf (PtrTo (StructOf sfs)))"

text \<open>The memory of the example: the records \<^verbatim>\<open>&s{N: 3}\<close>, \<^verbatim>\<open>&s{N: 1}\<close>, \<^verbatim>\<open>&s{N: 4}\<close>,
  \<^verbatim>\<open>&s{N: 1}\<close>, \<^verbatim>\<open>&s{N: 5}\<close> at the addresses 0 to 4.\<close>

definition example_mem :: memory where
  "example_mem =
     (\<lambda>a. [VInt 0, VInt 0])
       (0 := [VInt 3, VInt 0], 1 := [VInt 1, VInt 0], 2 := [VInt 4, VInt 0],
        3 := [VInt 1, VInt 0], 4 := [VInt 5, VInt 0])"

definition example_rec :: "addr \<Rightarrow> iface" where
  "example_rec a = Iface (PtrTo (StructOf example_struct)) (Some a)"

text \<open>The empty container that \<^verbatim>\<open>New\<close> builds for the example, and the one it builds for
  the test's struct type (no index field).\<close>

definition example_empty :: tagHeap where
  "example_empty =
     \<lparr>s = [], pt = PtrTo (StructOf example_struct), minHeap = True, keyFieldIndex = 0,
      indexFieldIndex = 1, less_fn = lessInt, swapTemp = None, mem = example_mem\<rparr>"

definition test_empty :: tagHeap where
  "test_empty =
     \<lparr>s = [], pt = PtrTo (StructOf test_struct), minHeap = False, keyFieldIndex = 1,
      indexFieldIndex = - 1, less_fn = lessInt, swapTemp = None,
      mem = (\<lambda>a. [VString ''a'', VInt 3])\<rparr>"

text \<open>A key field of the namespace: a field tagged \<^verbatim>\<open>min\<close> or \<^verbatim>\<open>max\<close>.\<close>

definition is_key_tag :: "string \<Rightarrow> StructField \<Rightarrow> bool" where
  "is_key_tag key sf \<longleftrightarrow> Get (Tag sf) key = ''min'' \<or> Get (Tag sf) key = ''max''"

text \<open>The calls of \<^verbatim>\<open>ExampleTagHeap_Remove\<close>; \<^verbatim>\<open>four\<close> is the record at address 2.\<close>

definition example_ops :: "op list" where
  "example_ops =
     [OpPush (example_rec 0), OpPush (example_rec 1), OpPush (example_rec 2),
      OpPush (example_rec 3), OpPush (example_rec 4),
      OpPop, OpRemove (example_rec 2), OpPop, OpPop, OpPop]"

section \<open>Predicates of the specification\<close>

text \<open>The fields of a record other than field number \<open>x\<close> are kept from \<open>r\<close> to \<open>r'\<close>.\<close>

definition fields_kept :: "int \<Rightarrow> fval list \<Rightarrow> fval list \<Rightarrow> bool" where
  "fields_kept x r r' \<longleftrightarrow>
     length r' = length r \<and> (\<forall>f < length r. int f \<noteq> x \<longrightarrow> r' ! f = r ! f)"

text \<open>From the memory \<open>m\<close> to the memory \<open>m'\<close>, no field of any record but field
  number \<open>x\<close> (the index field of the descriptor) has been written, and no record at all
  when \<open>x\<close> is the sentinel of an absent index field.\<close>

definition frame :: "int \<Rightarrow> memory \<Rightarrow> memory \<Rightarrow> bool" where
  "frame x m m' \<longleftrightarrow> (\<forall>a. fields_kept x (m a) (m' a)) \<and> (x < 0 \<longrightarrow> m' = m)"

text \<open>The descriptor of \<open>h'\<close> is that of \<open>h\<close>.\<close>

definition same_descriptor :: "tagHeap \<Rightarrow> tagHeap \<Rightarrow> bool" where
  "same_descriptor h h' \<longleftrightarrow>
     pt h' = pt h \<and> minHeap h' = minHeap h \<and> keyFieldIndex h' = keyFieldIndex h
     \<and> indexFieldIndex h' = indexFieldIndex h \<and> less_fn h' = less_fn h"

text \<open>From \<open>h\<close> to \<open>h'\<close> the descriptor is kept and no field but the index field is
  written.\<close>

definition kept :: "tagHeap \<Rightarrow> tagHeap \<Rightarrow> bool" where
  "kept h h' \<longleftrightarrow> same_descriptor h h' \<and> frame (indexFieldIndex h) (mem h) (mem h')"

text \<open>The child that \<^verbatim>\<open>down\<close> compares with the node \<open>i\<close>: the right one when it is in
  range and \<^verbatim>\<open>Less\<close> than the left one, the left one otherwise.\<close>

definition better_child :: "tagHeap \<Rightarrow> int \<Rightarrow> int \<Rightarrow> int option" where
  "better_child h i n =
     (case (if 2 * i + 1 + 1 < n then Less h (2 * i + 1 + 1) (2 * i + 1) else Some False) of
        None \<Rightarrow> None
      | Some r \<Rightarrow> Some (if r then 2 * i + 1 + 1 else 2 * i + 1))"

text \<open>
  Well-formedness of a container, as Go's type system and the constructor give it: the
  descriptor names a key field and, if any, another field as index field; the comparator
  is one of the four; every pointer of the slice is non-nil; every record in memory has
  the fields of the struct type, with a key the comparator reads and an index field of
  kind \<^verbatim>\<open>int\<close>.
\<close>

fun is_VInt :: "fval \<Rightarrow> bool" where
  "is_VInt (VInt v) = True"
| "is_VInt x = False"

definition comparator :: "(fval \<Rightarrow> fval \<Rightarrow> bool option) \<Rightarrow> bool" where
  "comparator f \<longleftrightarrow> f = lessString \<or> f = lessInt \<or> f = lessUint \<or> f = lessFloat"

definition rec_ok :: "tagHeap \<Rightarrow> fval list \<Rightarrow> bool" where
  "rec_ok h r \<longleftrightarrow>
     keyFieldIndex h < int (length r)
     \<and> less_fn h (r ! nat (keyFieldIndex h)) (r ! nat (keyFieldIndex h)) \<noteq> None
     \<and> (0 \<le> indexFieldIndex h \<longrightarrow>
          indexFieldIndex h < int (length r) \<and> is_VInt (r ! nat (indexFieldIndex h)))"

definition wellformed :: "tagHeap \<Rightarrow> bool" where
  "wellformed h \<longleftrightarrow>
     0 \<le> keyFieldIndex h \<and> keyFieldIndex h \<noteq> indexFieldIndex h \<and> comparator (less_fn h)
     \<and> (\<forall>p \<in> set (s h). p \<noteq> None) \<and> (\<forall>a. rec_ok h (mem h a))"

text \<open>\<open>h'\<close> is reached from \<open>h\<close> by calls of \<^verbatim>\<open>Swap\<close> that return.\<close>

inductive swaps :: "tagHeap \<Rightarrow> tagHeap \<Rightarrow> bool" where
  swaps_refl: "swaps h h"
| swaps_step: "Swap h i j = Ok () h1 \<Longrightarrow> swaps h1 h2 \<Longrightarrow> swaps h h2"

text \<open>Every element of the slice has its offset in its index field.\<close>

definition position_consistent :: "tagHeap \<Rightarrow> bool" where
  "position_consistent h \<longleftrightarrow>
     (\<forall>i \<in> {0..<length (s h)}.
        Field h (s h ! i) (indexFieldIndex h) = Some (VInt (int i)))"

text \<open>Along the calls \<open>ops\<close> from the state \<open>h\<close>, no record is pushed that the slice
  already holds.\<close>

fun fresh_pushes ::
  "(rtype \<Rightarrow> rtype \<Rightarrow> bool) \<Rightarrow> (rtype \<Rightarrow> rtype \<Rightarrow> bool) \<Rightarrow> op list \<Rightarrow> tagHeap \<Rightarrow> bool"
where
  "fresh_pushes A C [] h = True"
| "fresh_pushes A C (OpPush u # ops) h =
     ((case u of Nil_iface \<Rightarrow> True | Iface t p \<Rightarrow> p \<notin> set (s h))
      \<and> (case TagHeap_Push A h u of
           Panic h' \<Rightarrow> True
         | Ok x h' \<Rightarrow> fresh_pushes A C ops h'))"
| "fresh_pushes A C (OpPop # ops) h =
     (case TagHeap_Pop h of
        Panic h' \<Rightarrow> True
      | Ok r h' \<Rightarrow> fresh_pushes A C ops h')"
| "fresh_pushes A C (OpRemove u # ops) h =
     (case TagHeap_Remove C h u of
        Panic h' \<Rightarrow> True
      | Ok r h' \<Rightarrow> fresh_pushes A C ops h')"

text \<open>The invariant of the index fields: there is an index field, no record is in the
  slice twice, and every element has its offset in its index field.\<close>

definition index_kept :: "tagHeap \<Rightarrow> bool" where
  "index_kept h \<longleftrightarrow> 0 \<le> indexFieldIndex h \<and> distinct (s h) \<and> position_consistent h"

text \<open>Go's \<^verbatim>\<open>==\<close> on two field values.\<close>

fun fval_eq :: "fval \<Rightarrow> fval \<Rightarrow> bool" where
  "fval_eq (VFloat x) (VFloat y) = float_eq x y"
| "fval_eq a b = (a = b)"

text \<open>The keys of the elements \<open>i\<close> and \<open>j\<close> of the slice are equal (false where reading a
  key panics).\<close>

definition key_eq :: "tagHeap \<Rightarrow> int \<Rightarrow> int \<Rightarrow> bool" where
  "key_eq h i j =
     (case Index h i of
        None \<Rightarrow> False
      | Some p_i \<Rightarrow>
          (case Field h p_i (keyFieldIndex h) of
             None \<Rightarrow> False
           | Some vi \<Rightarrow>
               (case Index h j of
                  None \<Rightarrow> False
                | Some p_j \<Rightarrow>
                    (case Field h p_j (keyFieldIndex h) of
                       None \<Rightarrow> False
                     | Some vj \<Rightarrow> fval_eq vi vj))))"

text \<open>The binary-heap invariant of the slice: for every index \<open>i\<close> but the root, with
  parent \<open>p\<close>, \<^verbatim>\<open>Less(p, i)\<close> is true or the keys are equal.\<close>

definition heap_invariant :: "tagHeap \<Rightarrow> bool" where
  "heap_invariant h \<longleftrightarrow>
     (\<forall>i \<in> {1..<length (s h)}.
        Less h (int ((i - 1) div 2)) (int i) = Some True
        \<or> key_eq h (int ((i - 1) div 2)) (int i))"

text \<open>No record in memory has a NaN as its key.\<close>

definition nan_free :: "tagHeap \<Rightarrow> bool" where
  "nan_free h \<longleftrightarrow> (\<forall>a. Field h (Some a) (keyFieldIndex h) \<noteq> Some (VFloat NaN))"

text \<open>
  For the proofs, the keys of one kind are embedded in one linear order: \<open>rank\<close> is
  monotone for each of the four comparators on the values it reads, NaN apart.
\<close>

fun rank :: "fval \<Rightarrow> string \<times> int \<times> real" where
  "rank (VString x) = (x, 0, 0)"
| "rank (VInt i) = ('''', 0, real_of_int i)"
| "rank (VUint n) = ('''', 0, real n)"
| "rank (VFloat NegInf) = ('''', - 1, 0)"
| "rank (VFloat (Finite x)) = ('''', 0, x)"
| "rank (VFloat PosInf) = ('''', 1, 0)"
| "rank (VFloat NaN) = ('''', 2, 0)"
| "rank VOther = ('''', 0, 0)"

definition ranks :: "tagHeap \<Rightarrow> (string \<times> int \<times> real) list" where
  "ranks h = map (\<lambda>p. rank (mem h (the p) ! nat (keyFieldIndex h))) (s h)"

text \<open>\<open>heap_le mn a b\<close>: in a min-heap (\<open>mn\<close>) or max-heap, \<open>a\<close> may be the parent of \<open>b\<close>.\<close>

definition heap_le :: "bool \<Rightarrow> 'a::linorder \<Rightarrow> 'a \<Rightarrow> bool" where
  "heap_le mn a b = (if mn then a \<le> b else b \<le> a)"

definition pair_ok :: "bool \<Rightarrow> 'a::linorder list \<Rightarrow> nat \<Rightarrow> bool" where
  "pair_ok mn ks c = heap_le mn (ks ! ((c - 1) div 2)) (ks ! c)"

text \<open>The heap order on the first \<open>n\<close> positions, for the parents from \<open>lo\<close> on: everywhere
  (\<open>ord_from\<close>), everywhere but between \<open>i\<close> and its parent (\<open>ord_but\<close>), and everywhere
  but at \<open>i\<close>, whose parent may still be the parent of its children (\<open>ord_except\<close>).\<close>

definition ord_from :: "bool \<Rightarrow> 'a::linorder list \<Rightarrow> nat \<Rightarrow> nat \<Rightarrow> bool" where
  "ord_from mn ks lo n \<longleftrightarrow>
     (\<forall>c. 0 < c \<and> c < n \<and> lo \<le> (c - 1) div 2 \<longrightarrow> pair_ok mn ks c)"

definition ord_but :: "bool \<Rightarrow> 'a::linorder list \<Rightarrow> nat \<Rightarrow> nat \<Rightarrow> nat \<Rightarrow> bool" where
  "ord_but mn ks lo n i \<longleftrightarrow>
     (\<forall>c. 0 < c \<and> c < n \<and> lo \<le> (c - 1) div 2 \<and> c \<noteq> i \<longrightarrow> pair_ok mn ks c)"

definition grand_ok :: "bool \<Rightarrow> 'a::linorder list \<Rightarrow> nat \<Rightarrow> nat \<Rightarrow> nat \<Rightarrow> bool" where
  "grand_ok mn ks lo n i \<longleftrightarrow>
     (0 < i \<and> lo \<le> (i - 1) div 2 \<longrightarrow>
        (\<forall>c. 0 < c \<and> c < n \<and> (c - 1) div 2 = i \<longrightarrow> heap_le mn (ks ! ((i - 1) div 2)) (ks ! c)))"

definition ord_except :: "bool \<Rightarrow> 'a::linorder list \<Rightarrow> nat \<Rightarrow> nat \<Rightarrow> nat \<Rightarrow> bool" where
  "ord_except mn ks lo n i \<longleftrightarrow>
     (\<forall>c. 0 < c \<and> c < n \<and> lo \<le> (c - 1) div 2 \<and> c \<noteq> i \<and> (c - 1) div 2 \<noteq> i
          \<longrightarrow> pair_ok mn ks c)
     \<and> grand_ok mn ks lo n i"

text \<open>A well-formed container whose keys are totally ordered by its comparator.\<close>

definition ordered :: "tagHeap \<Rightarrow> bool" where
  "ordered h \<longleftrightarrow> wellformed h \<and> nan_free h"

text \<open>A container with ordered keys whose slice is a heap.\<close>

definition heap_ok :: "tagHeap \<Rightarrow> bool" where
  "heap_ok h \<longleftrightarrow> ordered h \<and> heap_invariant h"

text \<open>
  A field value has the kind of the field's type, and the memory holds records of the
  struct type: what Go's type system gives for the records behind a \<^verbatim>\<open>[]*S\<close> and for
  the records pushed.
\<close>

fun typed_value :: "kind \<Rightarrow> fval \<Rightarrow> bool" where
  "typed_value k (VString x) = (k = String_k)"
| "typed_value k (VInt i) = (kind_code Int_k \<le> kind_code k \<and> kind_code k \<le> kind_code Int64_k)"
| "typed_value k (VUint n) =
     (kind_code Uint_k \<le> kind_code k \<and> kind_code k \<le> kind_code Uintptr_k)"
| "typed_value k (VFloat x) = (k = Float32_k \<or> k = Float64_k)"
| "typed_value k VOther =
     (k \<noteq> String_k \<and> \<not> (kind_code Int_k \<le> kind_code k \<and> kind_code k \<le> kind_code Uintptr_k)
      \<and> k \<noteq> Float32_k \<and> k \<noteq> Float64_k)"

definition typed_memory :: "StructField list \<Rightarrow> memory \<Rightarrow> bool" where
  "typed_memory sfs m \<longleftrightarrow>
     (\<forall>a. length (m a) = length sfs
          \<and> (\<forall>f < length sfs. typed_value (Type_Kind (sfs ! f)) (m a ! f)))"

text \<open>No key field of any record holds a NaN.\<close>

definition keys_not_nan :: "string \<Rightarrow> StructField list \<Rightarrow> memory \<Rightarrow> bool" where
  "keys_not_nan key sfs m \<longleftrightarrow>
     (\<forall>a. \<forall>f < length sfs. is_key_tag key (sfs ! f) \<longrightarrow> m a ! f \<noteq> VFloat NaN)"

text \<open>No call of \<open>ops\<close> pushes a nil pointer.\<close>

fun nonnil_push :: "op \<Rightarrow> bool" where
  "nonnil_push (OpPush (Iface t None)) = False"
| "nonnil_push x = True"

text \<open>The descriptor \<open>t\<close> fits the fields \<open>fs\<close> scanned so far: its key field is tagged as
  one and its comparator reads every value of the field's kind; its index field is
  tagged as one and is an \<^verbatim>\<open>int\<close>.\<close>

definition descr_ok :: "string \<Rightarrow> StructField list \<Rightarrow> tagHeap \<Rightarrow> bool" where
  "descr_ok key fs t \<longleftrightarrow>
     - 1 \<le> keyFieldIndex t \<and> - 1 \<le> indexFieldIndex t
     \<and> (0 \<le> keyFieldIndex t \<longrightarrow>
          nat (keyFieldIndex t) < length fs \<and> is_key_tag key (fs ! nat (keyFieldIndex t))
          \<and> comparator (less_fn t)
          \<and> (\<forall>v. typed_value (Type_Kind (fs ! nat (keyFieldIndex t))) v \<longrightarrow> less_fn t v v \<noteq> None))
     \<and> (0 \<le> indexFieldIndex t \<longrightarrow>
          nat (indexFieldIndex t) < length fs
          \<and> Get (Tag (fs ! nat (indexFieldIndex t))) key = ''index''
          \<and> Type_Kind (fs ! nat (indexFieldIndex t)) = Int_k)"

text \<open>A min-heap on a \<^verbatim>\<open>float64\<close> key,
  \<^verbatim>\<open>struct { F float64 `heap:"min"` }\<close>, with the records \<^verbatim>\<open>&f{math.NaN()}\<close>, \<^verbatim>\<open>&f{1}\<close>,
  \<^verbatim>\<open>&f{2}\<close>, \<^verbatim>\<open>&f{3}\<close> at the addresses 0 to 3, and the empty container that \<^verbatim>\<open>New\<close>
  builds for it.\<close>

definition float_struct :: "StructField list" where
  "float_struct = [\<lparr>Tag = [(''heap'', ''min'')], PkgPath = '''', Type_Kind = Float64_k\<rparr>]"

definition float_mem :: memory where
  "float_mem =
     (\<lambda>a. [VFloat (Finite 0)])
       (0 := [VFloat NaN], 1 := [VFloat (Finite 1)], 2 := [VFloat (Finite 2)],
        3 := [VFloat (Finite 3)])"

definition float_rec :: "addr \<Rightarrow> iface" where
  "float_rec a = Iface (PtrTo (StructOf float_struct)) (Some a)"

definition float_empty :: tagHeap where
  "float_empty =
     \<lparr>s = [], pt = PtrTo (StructOf float_struct), minHeap = True, keyFieldIndex = 0,
      indexFieldIndex = - 1, less_fn = lessFloat, swapTemp = None, mem = float_mem\<rparr>"

text \<open>The key of a record that \<^verbatim>\<open>Pop\<close> returned, and Go's comparison of two keys in pop
  order: \<^verbatim>\<open>a <= b\<close> on a min-heap, \<^verbatim>\<open>a >= b\<close> on a max-heap. A popped sequence is sorted
  when each of its keys compares so with every later one.\<close>

definition popped_key :: "tagHeap \<Rightarrow> iface \<Rightarrow> fval option" where
  "popped_key h r = (case r of Nil_iface \<Rightarrow> None | Iface t p \<Rightarrow> Field h p (keyFieldIndex h))"

definition key_before :: "tagHeap \<Rightarrow> fval \<Rightarrow> fval \<Rightarrow> bool" where
  "key_before h a b \<longleftrightarrow>
     (if minHeap h then less_fn h a b = Some True else less_fn h b a = Some True)
     \<or> fval_eq a b"

definition pop_sorted :: "tagHeap \<Rightarrow> iface list \<Rightarrow> bool" where
  "pop_sorted h rs \<longleftrightarrow>
     sorted_wrt
       (\<lambda>x y. case popped_key h x of
                 None \<Rightarrow> False
               | Some a \<Rightarrow> (case popped_key h y of None \<Rightarrow> False | Some b \<Rightarrow> key_before h a b))
       rs"

text \<open>A value that \<^verbatim>\<open>TagHeap.Push\<close> takes: a non-nil pointer of a type assignable to the
  element type of the container.\<close>

fun pushable :: "(rtype \<Rightarrow> rtype \<Rightarrow> bool) \<Rightarrow> tagHeap \<Rightarrow> iface \<Rightarrow> bool" where
  "pushable A h (Iface t (Some a)) = A t (pt h)"
| "pushable A h u = False"

text \<open>On the \<^verbatim>\<open>float64\<close> min-heap: \<^verbatim>\<open>Push\<close> of the records with the keys 2, NaN, 3 and 1, then
  four calls of \<^verbatim>\<open>Pop\<close>.\<close>

definition float_ops :: "op list" where
  "float_ops =
     [OpPush (float_rec 2), OpPush (float_rec 0), OpPush (float_rec 3), OpPush (float_rec 1),
      OpPop, OpPop, OpPop, OpPop]"

text \<open>A nil pointer can stay in the slice only alone: any comparison with it panics. The
  states that returning calls reach are those of \<open>heap_ok\<close> and those whose slice is one
  nil pointer.\<close>

definition nil_only :: "tagHeap \<Rightarrow> bool" where
  "nil_only h \<longleftrightarrow> s h = [None] \<and> heap_ok (h\<lparr>s := []\<rparr>)"

section \<open>Properties\<close>

subsection \<open>The constructor\<close>

lemma New_example: "New ''heap'' (Arg (slice_ptr example_struct) (Some [])) example_mem
    = Inr (Ok () example_empty)"
  by (simp add: New_def newTagHeap_def slice_ptr_def example_struct_def example_empty_def
      heap_Init_def Len_def init_loop.simps signed_divide_int_def scan_field_def key_less_def)

lemma New_test: "New ''pq'' (Arg (slice_ptr test_struct) (Some [])) (\<lambda>a. [VString ''a'', VInt 3])
    = Inr (Ok () test_empty)"
  by (simp add: New_def newTagHeap_def slice_ptr_def test_struct_def test_empty_def
      heap_Init_def Len_def init_loop.simps signed_divide_int_def scan_field_def key_less_def)

lemma scan_field_key:
  "scan_field key sf i t = Inr t' \<Longrightarrow> 0 \<le> i \<Longrightarrow>
   (if is_key_tag key sf then keyFieldIndex t < 0 \<and> keyFieldIndex t' = i
    else keyFieldIndex t' = keyFieldIndex t)"
  by (auto simp: scan_field_def is_key_tag_def Let_def split: if_splits option.splits)

lemma scan_fields_keys:
  "scan_fields key sfs i t = Inr t' \<Longrightarrow> 0 \<le> i \<Longrightarrow>
   (if 0 \<le> keyFieldIndex t
    then length (filter (is_key_tag key) sfs) = 0 \<and> keyFieldIndex t' = keyFieldIndex t
    else (length (filter (is_key_tag key) sfs) = 0 \<and> keyFieldIndex t' < 0)
       \<or> (length (filter (is_key_tag key) sfs) = 1 \<and> 0 \<le> keyFieldIndex t'))"
proof (induction sfs arbitrary: i t)
  case Nil
  then show ?case by simp
next
  case (Cons sf sfs)
  from Cons.prems obtain t1 where t1: "scan_field key sf i t = Inr t1"
    and t2: "scan_fields key sfs (i + 1) t1 = Inr t'"
    by (auto split: sum.splits)
  from Cons.IH[OF t2] scan_field_key[OF t1] Cons.prems(2) show ?case
    by (auto split: if_splits)
qed

text \<open>
  Claim C6. \<^verbatim>\<open>New\<close> over a record type that has no key field in the given namespace
  returns an error and no container, and so does \<^verbatim>\<open>New\<close> over a record type with two
  (or more) key fields in the namespace: whenever the number of fields tagged \<^verbatim>\<open>min\<close> or
  \<^verbatim>\<open>max\<close> is not one, the result is an error, whatever the slice and the memory hold, and
  nothing of them is touched (an error result carries no state).
\<close>

theorem New_key_count_error:
  assumes "length (filter (is_key_tag key) sfs) \<noteq> 1"
  shows "\<exists>e. New key (Arg (slice_ptr sfs) v) m = Inl e"
proof (cases "scan_fields key sfs 0
      \<lparr>s = [], pt = PtrTo (StructOf sfs), minHeap = False, keyFieldIndex = - 1,
       indexFieldIndex = - 1, less_fn = (\<lambda>vi vj. None), swapTemp = None, mem = m\<rparr>")
  case (Inl e)
  then show ?thesis by (simp add: New_def newTagHeap_def slice_ptr_def)
next
  case (Inr t')
  from scan_fields_keys[OF Inr] assms have "keyFieldIndex t' < 0" by auto
  with Inr show ?thesis by (simp add: New_def newTagHeap_def slice_ptr_def)
qed

theorem New_key_count_error_witness:
  "length (filter (is_key_tag ''heap'') test_struct) \<noteq> 1
   \<and> (\<exists>e. New ''heap'' (Arg (slice_ptr test_struct) (Some [])) (\<lambda>a. []) = Inl e)"
  using New_key_count_error[of "''heap''" test_struct "Some []" "\<lambda>a. []"]
  by (simp add: test_struct_def is_key_tag_def)

lemma scan_fields_append:
  "scan_fields key (xs @ ys) i t =
     (case scan_fields key xs i t of Inl e \<Rightarrow> Inl e
      | Inr t' \<Rightarrow> scan_fields key ys (i + int (length xs)) t')"
  by (induction xs arbitrary: i t) (auto simp: ac_simps split: sum.splits)

lemma scan_field_pt:
  "scan_field key sf i (t\<lparr>pt := x\<rparr>) =
     (case scan_field key sf i t of Inl e \<Rightarrow> Inl e | Inr t' \<Rightarrow> Inr (t'\<lparr>pt := x\<rparr>))"
  by (simp add: scan_field_def Let_def split: option.splits)

lemma scan_fields_pt:
  "scan_fields key sfs i (t\<lparr>pt := x\<rparr>) =
     (case scan_fields key sfs i t of Inl e \<Rightarrow> Inl e | Inr t' \<Rightarrow> Inr (t'\<lparr>pt := x\<rparr>))"
  by (induction sfs arbitrary: i t) (auto simp: scan_field_pt split: sum.splits)

lemma scan_field_index:
  assumes "Get (Tag sf) key = ''index''"
    and "scan_field key (sf\<lparr>Type_Kind := Int_k\<rparr>) i t = Inr t'"
    and "Type_Kind sf \<noteq> Int_k"
  shows "scan_field key sf i t = Inl ErrIndexType"
  using assms by (simp add: scan_field_def Let_def split: if_splits)

text \<open>
  Claim C9, as stated, fails: the claim accepts a position field of any integer type, the
  constructor accepts the kind \<^verbatim>\<open>int\<close> alone. On the example's struct type with the index
  field declared \<^verbatim>\<open>int64\<close>, \<^verbatim>\<open>New\<close> returns the error "index field must have type int".
\<close>

theorem New_int64_index_rejected:
  "New ''heap'' (Arg (slice_ptr int64_index_struct) (Some [])) example_mem = Inl ErrIndexType"
  by (simp add: New_def newTagHeap_def slice_ptr_def int64_index_struct_def scan_field_def
      key_less_def)

text \<open>
  Claim C9, amended. Take a record type that \<^verbatim>\<open>New\<close> accepts when its position field
  (the field tagged \<^verbatim>\<open>index\<close>) has the type \<^verbatim>\<open>int\<close>. With any type of the same field,
  \<^verbatim>\<open>New\<close> returns the same result when the kind of the type is \<^verbatim>\<open>int\<close>, and the error
  "index field must have type int" for every other kind, the other integer kinds included.
\<close>

theorem New_index_kind:
  assumes tag: "Get (Tag sf) key = ''index''"
    and acc: "New key (Arg (slice_ptr (pre @ sf\<lparr>Type_Kind := Int_k\<rparr> # post)) v) m = Inr r"
  shows "New key (Arg (slice_ptr (pre @ sf # post)) v) m
      = (if Type_Kind sf = Int_k then Inr r else Inl ErrIndexType)"
proof (cases "Type_Kind sf = Int_k")
  case True
  then have "sf\<lparr>Type_Kind := Int_k\<rparr> = sf" by simp
  with acc True show ?thesis by simp
next
  case False
  define tA where "tA = \<lparr>s = [], pt = PtrTo (StructOf (pre @ sf\<lparr>Type_Kind := Int_k\<rparr> # post)),
       minHeap = False, keyFieldIndex = - 1, indexFieldIndex = - 1,
       less_fn = (\<lambda>vi vj. None), swapTemp = None, mem = m\<rparr>"
  define tB where "tB = tA\<lparr>pt := PtrTo (StructOf (pre @ sf # post))\<rparr>"
  have "\<exists>t3. scan_fields key (pre @ sf\<lparr>Type_Kind := Int_k\<rparr> # post) 0 tA = Inr t3"
    using acc unfolding New_def newTagHeap_def slice_ptr_def tA_def
    by (cases "scan_fields key (pre @ sf\<lparr>Type_Kind := Int_k\<rparr> # post) 0
      \<lparr>s = [], pt = PtrTo (StructOf (pre @ sf\<lparr>Type_Kind := Int_k\<rparr> # post)),
       minHeap = False, keyFieldIndex = - 1, indexFieldIndex = - 1,
       less_fn = (\<lambda>vi vj. None), swapTemp = None, mem = m\<rparr>") simp_all
  then obtain t1 t2 where pre: "scan_fields key pre 0 tA = Inr t1"
    and step: "scan_field key (sf\<lparr>Type_Kind := Int_k\<rparr>) (int (length pre)) t1 = Inr t2"
    by (auto simp: scan_fields_append split: sum.splits)
  have "scan_field key sf (int (length pre)) t1 = Inl ErrIndexType"
    using scan_field_index[OF tag step False] .
  then have "scan_fields key (pre @ sf # post) 0 tB = Inl ErrIndexType"
    using pre by (simp add: scan_fields_append tB_def scan_fields_pt)
  then show ?thesis using False
    by (simp add: New_def newTagHeap_def slice_ptr_def tB_def tA_def)
qed

theorem New_index_kind_witness:
  "Get (Tag \<lparr>Tag = [(''heap'', ''index'')], PkgPath = '''', Type_Kind = Int64_k\<rparr>) ''heap''
     = ''index''
   \<and> New ''heap'' (Arg (slice_ptr example_struct) (Some [])) example_mem
     = Inr (Ok () example_empty)
   \<and> New ''heap'' (Arg (slice_ptr int64_index_struct) (Some [])) example_mem
     = Inl ErrIndexType"
  using New_index_kind[of "\<lparr>Tag = [(''heap'', ''index'')], PkgPath = '''', Type_Kind = Int64_k\<rparr>"
      "''heap''" "[\<lparr>Tag = [(''heap'', ''min'')], PkgPath = '''', Type_Kind = Int_k\<rparr>]" "[]"
      "Some []" example_mem "Ok () example_empty"] New_example
  by (simp add: example_struct_def int64_index_struct_def)

subsection \<open>Faults of the exported methods\<close>

text \<open>
  Claim C4, as stated, fails: \<^verbatim>\<open>Pop\<close> on the empty container of the example does not
  return; it panics.
\<close>

theorem Pop_empty_example_panics:
  "TagHeap_Len example_empty = 0 \<and> \<not> returns (TagHeap_Pop example_empty)"
  by (simp add: TagHeap_Pop_def heap_Pop_def Swap_def Index_def Len_def TagHeap_Len_def
      example_empty_def)

text \<open>
  Claim C4, amended. \<^verbatim>\<open>Pop\<close> on an empty heap panics, as its documentation says ("Pop on
  an empty heap causes a panic. Use Len as needed to avoid this."): the driver swaps the
  positions 0 and -1 first, which is out of range. The panic leaves the container and the
  storage as they were. It is the unexported \<^verbatim>\<open>tagHeap.Pop\<close> alone that returns nil on
  empty storage, leaving it unchanged.
\<close>

theorem Pop_empty:
  "s h = [] \<Longrightarrow> TagHeap_Pop h = Panic h \<and> Pop h = Ok Nil_iface h"
  by (simp add: TagHeap_Pop_def heap_Pop_def Swap_def Index_def Len_def Pop_def)

theorem Pop_empty_witness:
  "s example_empty = [] \<and> TagHeap_Pop example_empty = Panic example_empty
   \<and> Pop example_empty = Ok Nil_iface example_empty"
  using Pop_empty[of example_empty] by (simp add: example_empty_def)

text \<open>
  Claim C8. \<^verbatim>\<open>Remove\<close> on a container without an index field (the field number is the
  sentinel -1) panics, whatever the argument; the state at the panic is the state before
  the call, so nothing of the storage is changed and no value is returned.
\<close>

theorem Remove_without_index_panics:
  "indexFieldIndex h < 0 \<Longrightarrow> TagHeap_Remove C h u = Panic h"
  by (simp add: TagHeap_Remove_def)

theorem Remove_without_index_panics_witness:
  "indexFieldIndex test_empty < 0
   \<and> TagHeap_Remove (=) test_empty (Iface (PtrTo (StructOf test_struct)) (Some 0))
     = Panic test_empty"
  using Remove_without_index_panics[of test_empty "(=)"
      "Iface (PtrTo (StructOf test_struct)) (Some 0)"]
  by (simp add: test_empty_def)

subsection \<open>The example of the repository\<close>

text \<open>
  Claim C5. On the min-heap of the example (integer key \<^verbatim>\<open>N\<close>, index field \<^verbatim>\<open>X\<close>),
  built empty by \<^verbatim>\<open>New\<close>: after pushing the records with the keys 3, 1, 4, 1, 5 (at the
  addresses 0 to 4), the first \<^verbatim>\<open>Pop\<close> returns a record with key 1 (address 1),
  \<^verbatim>\<open>Remove\<close> of the record with key 4 returns that same record (address 2), and the three
  remaining calls of \<^verbatim>\<open>Pop\<close> return the records with the keys 1, 3 and 5 (addresses 3, 0
  and 4), which leaves the heap empty.
\<close>

theorem example_run:
  "New ''heap'' (Arg (slice_ptr example_struct) (Some [])) example_mem
     = Inr (Ok () example_empty)
   \<and> (\<exists>h. run (=) (=) example_ops example_empty
          = Ok [example_rec 1, example_rec 2, example_rec 3, example_rec 0, example_rec 4] h
        \<and> s h = [])
   \<and> map (\<lambda>a. example_mem a ! 0) [1, 2, 3, 0, 4] = [VInt 1, VInt 4, VInt 1, VInt 3, VInt 5]"
proof -
  have "case run (=) (=) example_ops example_empty of
          Ok rs h \<Rightarrow>
            rs = [example_rec 1, example_rec 2, example_rec 3, example_rec 0, example_rec 4]
            \<and> s h = []
        | Panic h \<Rightarrow> False"
    by code_simp
  then have "\<exists>h. run (=) (=) example_ops example_empty
          = Ok [example_rec 1, example_rec 2, example_rec 3, example_rec 0, example_rec 4] h
        \<and> s h = []"
    by (auto split: outcome.splits)
  then show ?thesis
    using New_example by (simp add: example_mem_def)
qed

subsection \<open>What the methods leave alone\<close>

lemma same_descriptor_refl [simp]: "same_descriptor h h"
  by (simp add: same_descriptor_def)

lemma same_descriptor_trans:
  "same_descriptor h h1 \<Longrightarrow> same_descriptor h1 h2 \<Longrightarrow> same_descriptor h h2"
  by (simp add: same_descriptor_def)

lemma SetInt_Some:
  "SetInt h p f v = Some h' \<Longrightarrow>
     \<exists>a old. p = Some a \<and> 0 \<le> f \<and> nat f < length (mem h a) \<and> mem h a ! nat f = VInt old
       \<and> h' = h\<lparr>mem := (mem h)(a := (mem h a)[nat f := VInt v])\<rparr>"
  by (auto simp: SetInt_def split: option.splits if_splits fval.splits)

lemma fields_kept_refl [simp]: "fields_kept x r r"
  by (simp add: fields_kept_def)

lemma fields_kept_trans: "fields_kept x r r1 \<Longrightarrow> fields_kept x r1 r2 \<Longrightarrow> fields_kept x r r2"
  by (simp add: fields_kept_def)

lemma frame_refl [simp]: "frame x m m"
  by (simp add: frame_def)

lemma frame_trans: "frame x m m1 \<Longrightarrow> frame x m1 m2 \<Longrightarrow> frame x m m2"
  unfolding frame_def by (metis fields_kept_trans)

lemma SetInt_frame: "SetInt h p f v = Some h' \<Longrightarrow> frame f (mem h) (mem h')"
  by (auto dest!: SetInt_Some simp: frame_def fields_kept_def nth_list_update)

lemma SetInt_descriptor:
  "SetInt h p f v = Some h' \<Longrightarrow> same_descriptor h h' \<and> s h' = s h \<and> swapTemp h' = swapTemp h"
  by (auto dest!: SetInt_Some simp: same_descriptor_def)

lemma Swap_descriptor: "same_descriptor h (final (Swap h i j))"
  by (auto simp: Swap_def Let_def Index_def Len_def same_descriptor_def
      dest!: SetInt_descriptor split: option.splits)

lemma SetInt_facts:
  "SetInt h p f v = Some h' \<Longrightarrow>
     frame f (mem h) (mem h') \<and> indexFieldIndex h' = indexFieldIndex h \<and> s h' = s h"
  by (auto dest: SetInt_frame SetInt_descriptor simp: same_descriptor_def)

lemma Swap_frame: "frame (indexFieldIndex h) (mem h) (mem (final (Swap h i j)))"
  by (auto simp: Swap_def Let_def Index_def Len_def dest!: SetInt_facts
      intro: frame_trans split: option.splits)

lemma Push_descriptor: "same_descriptor h (final (Push h u))"
  by (auto simp: Push_def same_descriptor_def dest!: SetInt_descriptor split: option.splits iface.splits)

lemma Push_frame: "frame (indexFieldIndex h) (mem h) (mem (final (Push h u)))"
  by (auto simp: Push_def dest!: SetInt_frame split: option.splits iface.splits)

lemma Pop_descriptor: "same_descriptor h (final (Pop h))"
  by (simp add: Pop_def Let_def same_descriptor_def)

lemma Pop_mem: "mem (final (Pop h)) = mem h"
  by (simp add: Pop_def Let_def)

lemma kept_refl [simp]: "kept h h"
  by (simp add: kept_def)

lemma kept_trans: "kept h h1 \<Longrightarrow> kept h1 h2 \<Longrightarrow> kept h h2"
  unfolding kept_def same_descriptor_def by (metis frame_trans)

lemma Swap_kept: "kept h (final (Swap h i j))"
  by (simp add: kept_def Swap_descriptor Swap_frame)

lemma Push_kept: "kept h (final (Push h u))"
  by (simp add: kept_def Push_descriptor Push_frame)

lemma Pop_kept: "kept h (final (Pop h))"
  by (simp add: kept_def Pop_descriptor Pop_mem)

lemma up_cases [case_names root less_panic stop swap_panic swap]:
  obtains
    "(j - 1) sdiv 2 = j" "up h j = Ok () h"
  | "(j - 1) sdiv 2 \<noteq> j" "Less h j ((j - 1) sdiv 2) = None" "up h j = Panic h"
  | "(j - 1) sdiv 2 \<noteq> j" "Less h j ((j - 1) sdiv 2) = Some False" "up h j = Ok () h"
  | h' where "(j - 1) sdiv 2 \<noteq> j" "Less h j ((j - 1) sdiv 2) = Some True"
      "Swap h ((j - 1) sdiv 2) j = Panic h'" "up h j = Panic h'"
  | h' where "(j - 1) sdiv 2 \<noteq> j" "Less h j ((j - 1) sdiv 2) = Some True"
      "Swap h ((j - 1) sdiv 2) j = Ok () h'" "up h j = up h' ((j - 1) sdiv 2)"
proof (cases "(j - 1) sdiv 2 = j")
  case True
  then have "up h j = Ok () h" by (subst up.simps) simp
  with True that(1) show ?thesis by blast
next
  case ne: False
  show ?thesis
  proof (cases "Less h j ((j - 1) sdiv 2)")
    case None
    with ne have "up h j = Panic h" by (subst up.simps) simp
    with ne None that(2) show ?thesis by blast
  next
    case (Some b)
    show ?thesis
    proof (cases b)
      case False
      with ne Some have "up h j = Ok () h" by (subst up.simps) simp
      with ne Some False that(3) show ?thesis by auto
    next
      case True
      show ?thesis
      proof (cases "Swap h ((j - 1) sdiv 2) j")
        case (Panic h')
        with ne Some True have "up h j = Panic h'" by (subst up.simps) simp
        with ne Some True Panic that(4) show ?thesis by auto
      next
        case (Ok u h')
        with ne Some True have "up h j = up h' ((j - 1) sdiv 2)" by (subst up.simps) simp
        with ne Some True Ok that(5) show ?thesis by auto
      qed
    qed
  qed
qed

lemma down_loop_cases [case_names leaf child_panic less_panic stop swap_panic swap]:
  obtains
    "n \<le> 2 * i + 1 \<or> 2 * i + 1 < 0" "down_loop h i n = Ok i h"
  | "\<not> (n \<le> 2 * i + 1 \<or> 2 * i + 1 < 0)" "better_child h i n = None"
      "down_loop h i n = Panic h"
  | j where "\<not> (n \<le> 2 * i + 1 \<or> 2 * i + 1 < 0)" "better_child h i n = Some j"
      "Less h j i = None" "down_loop h i n = Panic h"
  | j where "\<not> (n \<le> 2 * i + 1 \<or> 2 * i + 1 < 0)" "better_child h i n = Some j"
      "Less h j i = Some False" "down_loop h i n = Ok i h"
  | j h' where "\<not> (n \<le> 2 * i + 1 \<or> 2 * i + 1 < 0)" "better_child h i n = Some j"
      "Less h j i = Some True" "Swap h i j = Panic h'" "down_loop h i n = Panic h'"
  | j h' where "\<not> (n \<le> 2 * i + 1 \<or> 2 * i + 1 < 0)" "better_child h i n = Some j"
      "Less h j i = Some True" "Swap h i j = Ok () h'" "down_loop h i n = down_loop h' j n"
proof (cases "n \<le> 2 * i + 1 \<or> 2 * i + 1 < 0")
  case True
  then have "down_loop h i n = Ok i h" by (subst down_loop.simps) auto
  with True that(1) show ?thesis by blast
next
  case inner: False
  show ?thesis
  proof (cases "better_child h i n")
    case None
    with inner have "down_loop h i n = Panic h"
      by (subst down_loop.simps) (auto simp: better_child_def Let_def split: option.splits if_splits)
    with inner None that(2) show ?thesis by blast
  next
    case (Some j)
    note j = this
    have unf: "down_loop h i n =
        (case Less h j i of
           None \<Rightarrow> Panic h
         | Some b \<Rightarrow>
             if \<not> b then Ok i h
             else (case Swap h i j of Panic h' \<Rightarrow> Panic h' | Ok u h' \<Rightarrow> down_loop h' j n))"
      using inner j
      by (subst down_loop.simps)
        (auto simp: better_child_def Let_def split: option.splits if_splits
          cong: outcome.case_cong option.case_cong)
    show ?thesis
    proof (cases "Less h j i")
      case None
      with unf have "down_loop h i n = Panic h" by simp
      with inner j None that(3) show ?thesis by blast
    next
      case (Some b)
      show ?thesis
      proof (cases b)
        case False
        with unf Some have "down_loop h i n = Ok i h" by simp
        with inner j Some False that(4) show ?thesis by auto
      next
        case True
        show ?thesis
        proof (cases "Swap h i j")
          case (Panic h')
          with unf Some True have "down_loop h i n = Panic h'" by simp
          with inner j Some True Panic that(5) show ?thesis by auto
        next
          case (Ok u h')
          with unf Some True have "down_loop h i n = down_loop h' j n" by simp
          with inner j Some True Ok that(6) show ?thesis by auto
        qed
      qed
    qed
  qed
qed

text \<open>Induction along the iterations of the two sift loops.\<close>

lemma up_induct [case_names root less_panic stop swap_panic swap]:
  assumes "\<And>h j. (j - 1) sdiv 2 = j \<Longrightarrow> up h j = Ok () h \<Longrightarrow> P h j"
    and "\<And>h j. (j - 1) sdiv 2 \<noteq> j \<Longrightarrow> Less h j ((j - 1) sdiv 2) = None \<Longrightarrow>
           up h j = Panic h \<Longrightarrow> P h j"
    and "\<And>h j. (j - 1) sdiv 2 \<noteq> j \<Longrightarrow> Less h j ((j - 1) sdiv 2) = Some False \<Longrightarrow>
           up h j = Ok () h \<Longrightarrow> P h j"
    and "\<And>h j h'. (j - 1) sdiv 2 \<noteq> j \<Longrightarrow> Less h j ((j - 1) sdiv 2) = Some True \<Longrightarrow>
           Swap h ((j - 1) sdiv 2) j = Panic h' \<Longrightarrow> up h j = Panic h' \<Longrightarrow> P h j"
    and "\<And>h j h'. (j - 1) sdiv 2 \<noteq> j \<Longrightarrow> Less h j ((j - 1) sdiv 2) = Some True \<Longrightarrow>
           Swap h ((j - 1) sdiv 2) j = Ok () h' \<Longrightarrow> up h j = up h' ((j - 1) sdiv 2) \<Longrightarrow>
           P h' ((j - 1) sdiv 2) \<Longrightarrow> P h j"
  shows "P h j"
proof (induction h j rule: up.induct)
  case (1 h j)
  show ?case
  proof (cases rule: up_cases[where h=h and j=j])
    case (swap h')
    from "1.IH"[OF refl swap(1) swap(2) _ swap(3)] have p: "P h' ((j - 1) sdiv 2)" by simp
    show ?thesis by (rule assms(5)[OF swap p])
  qed (use assms in blast)+
qed

lemma down_loop_induct [case_names leaf child_panic less_panic stop swap_panic swap]:
  assumes "\<And>h i. n \<le> 2 * i + 1 \<or> 2 * i + 1 < 0 \<Longrightarrow> down_loop h i n = Ok i h \<Longrightarrow> P h i"
    and "\<And>h i. \<not> (n \<le> 2 * i + 1 \<or> 2 * i + 1 < 0) \<Longrightarrow> better_child h i n = None \<Longrightarrow>
           down_loop h i n = Panic h \<Longrightarrow> P h i"
    and "\<And>h i j. \<not> (n \<le> 2 * i + 1 \<or> 2 * i + 1 < 0) \<Longrightarrow> better_child h i n = Some j \<Longrightarrow>
           Less h j i = None \<Longrightarrow> down_loop h i n = Panic h \<Longrightarrow> P h i"
    and "\<And>h i j. \<not> (n \<le> 2 * i + 1 \<or> 2 * i + 1 < 0) \<Longrightarrow> better_child h i n = Some j \<Longrightarrow>
           Less h j i = Some False \<Longrightarrow> down_loop h i n = Ok i h \<Longrightarrow> P h i"
    and "\<And>h i j h'. \<not> (n \<le> 2 * i + 1 \<or> 2 * i + 1 < 0) \<Longrightarrow> better_child h i n = Some j \<Longrightarrow>
           Less h j i = Some True \<Longrightarrow> Swap h i j = Panic h' \<Longrightarrow>
           down_loop h i n = Panic h' \<Longrightarrow> P h i"
    and "\<And>h i j h'. \<not> (n \<le> 2 * i + 1 \<or> 2 * i + 1 < 0) \<Longrightarrow> better_child h i n = Some j \<Longrightarrow>
           Less h j i = Some True \<Longrightarrow> Swap h i j = Ok () h' \<Longrightarrow>
           down_loop h i n = down_loop h' j n \<Longrightarrow> P h' j \<Longrightarrow> P h i"
  shows "P h i"
proof -
  have "n' = n \<Longrightarrow> P h i" for n'
  proof (induction h i n' rule: down_loop.induct)
    case (1 h i n')
    note n = \<open>n' = n\<close>
    show ?case
    proof (cases rule: down_loop_cases[where h=h and i=i and n=n])
      case (swap j h')
      from swap(2) obtain r where
        r: "(if 2 * i + 1 + 1 < n then Less h (2 * i + 1 + 1) (2 * i + 1) else Some False) = Some r"
        and j: "j = (if r then 2 * i + 1 + 1 else 2 * i + 1)"
        by (auto simp: better_child_def split: option.splits)
      from "1.IH"[OF refl _ _ j _ _ swap(4) n] swap(1) r swap(3) n have p: "P h' j" by simp
      show ?thesis by (rule assms(6)[OF swap p])
    qed (use assms in blast)+
  qed
  then show ?thesis by simp
qed

lemma up_kept: "kept h (final (up h j))"
proof (induction h j rule: up_induct)
  case (swap_panic h j h')
  with Swap_kept[of h "(j - 1) sdiv 2" j] show ?case by simp
next
  case (swap h j h')
  with Swap_kept[of h "(j - 1) sdiv 2" j] show ?case by (auto intro: kept_trans)
qed simp_all

lemma down_loop_kept: "kept h (final (down_loop h i n))"
proof (induction h i rule: down_loop_induct[where n=n])
  case (swap_panic h i j h')
  with Swap_kept[of h i j] show ?case by simp
next
  case (swap h i j h')
  with Swap_kept[of h i j] show ?case by (auto intro: kept_trans)
qed simp_all

lemma down_kept: "kept h (final (down h i n))"
  using down_loop_kept[of h i n] by (cases "down_loop h i n") (simp_all add: down_def)

lemma init_loop_kept: "kept h (final (init_loop h i n))"
proof (induction h i n rule: init_loop.induct)
  case (1 h i n)
  show ?case
  proof (cases "0 \<le> i")
    case False
    then show ?thesis by (subst init_loop.simps) simp
  next
    case True
    show ?thesis
    proof (cases "down h i n")
      case (Panic h')
      with True down_kept[of h i n] show ?thesis by (subst init_loop.simps) simp
    next
      case (Ok moved h')
      with True down_kept[of h i n] "1.IH"[OF True Ok] show ?thesis
        by (subst init_loop.simps) (auto intro: kept_trans)
    qed
  qed
qed

lemma heap_Init_kept: "kept h (final (heap_Init h))"
  by (simp add: heap_Init_def Let_def init_loop_kept)

lemma heap_Push_kept: "kept h (final (heap_Push h u))"
  using Push_kept[of h u]
  by (auto simp: heap_Push_def split: outcome.splits intro: kept_trans up_kept)

lemma heap_Pop_kept: "kept h (final (heap_Pop h))"
proof -
  let ?n = "Len h - 1"
  show ?thesis
  proof (cases "Swap h 0 ?n")
    case (Panic h')
    with Swap_kept[of h 0 ?n] show ?thesis by (simp add: heap_Pop_def)
  next
    case (Ok u h1)
    with Swap_kept[of h 0 ?n] have k1: "kept h h1" by simp
    show ?thesis
    proof (cases "down h1 0 ?n")
      case (Panic h')
      with down_kept[of h1 0 ?n] k1 Ok show ?thesis
        by (auto simp: heap_Pop_def intro: kept_trans)
    next
      case ok2: (Ok moved h2)
      with down_kept[of h1 0 ?n] k1 have "kept h h2" by (auto intro: kept_trans)
      with Pop_kept[of h2] Ok ok2 show ?thesis
        by (auto simp: heap_Pop_def intro: kept_trans)
    qed
  qed
qed

lemma heap_Remove_kept: "kept h (final (heap_Remove h i))"
proof (cases "Len h - 1 = i")
  case True
  then show ?thesis by (simp add: heap_Remove_def Pop_kept)
next
  case ne: False
  let ?n = "Len h - 1"
  show ?thesis
  proof (cases "Swap h i ?n")
    case (Panic h')
    with Swap_kept[of h i ?n] ne show ?thesis by (simp add: heap_Remove_def)
  next
    case (Ok u h1)
    with Swap_kept[of h i ?n] have k1: "kept h h1" by simp
    show ?thesis
    proof (cases "down h1 i ?n")
      case (Panic h')
      with down_kept[of h1 i ?n] k1 Ok ne show ?thesis
        by (auto simp: heap_Remove_def intro: kept_trans)
    next
      case ok2: (Ok moved h2)
      with down_kept[of h1 i ?n] k1 have k2: "kept h h2" by (auto intro: kept_trans)
      show ?thesis
      proof (cases moved)
        case True
        with Pop_kept[of h2] Ok ok2 k2 ne show ?thesis
          by (auto simp: heap_Remove_def intro: kept_trans)
      next
        case False
        show ?thesis
        proof (cases "up h2 i")
          case (Panic h')
          with up_kept[of h2 i] Ok ok2 k2 ne False show ?thesis
            by (auto simp: heap_Remove_def intro: kept_trans)
        next
          case ok3: (Ok u' h3)
          with up_kept[of h2 i] k2 have "kept h h3" by (auto intro: kept_trans)
          with Pop_kept[of h3] Ok ok2 ok3 ne False show ?thesis
            by (auto simp: heap_Remove_def intro: kept_trans)
        qed
      qed
    qed
  qed
qed

lemma TagHeap_Push_kept: "kept h (final (TagHeap_Push A h u))"
  by (simp add: TagHeap_Push_def heap_Push_kept split: iface.splits)

lemma TagHeap_Pop_kept: "kept h (final (TagHeap_Pop h))"
  by (simp add: TagHeap_Pop_def heap_Pop_kept)

lemma TagHeap_Remove_kept: "kept h (final (TagHeap_Remove C h u))"
  by (simp add: TagHeap_Remove_def heap_Remove_kept split: iface.splits option.splits fval.splits)

lemma run_kept: "kept h (final (run A C ops h))"
proof (induction ops arbitrary: h)
  case Nil
  show ?case by simp
next
  case (Cons x ops)
  show ?case
  proof (cases x)
    case (OpPush u)
    with TagHeap_Push_kept[of h A u] Cons.IH show ?thesis
      by (auto split: outcome.splits intro: kept_trans)
  next
    case OpPop
    show ?thesis
    proof (cases "TagHeap_Pop h")
      case (Panic h')
      with OpPop TagHeap_Pop_kept[of h] show ?thesis by simp
    next
      case (Ok r h')
      with TagHeap_Pop_kept[of h] Cons.IH[of h'] have "kept h (final (run A C ops h'))"
        by (auto intro: kept_trans)
      with OpPop Ok show ?thesis by (auto split: outcome.splits)
    qed
  next
    case (OpRemove u)
    show ?thesis
    proof (cases "TagHeap_Remove C h u")
      case (Panic h')
      with OpRemove TagHeap_Remove_kept[of h C u] show ?thesis by simp
    next
      case (Ok r h')
      with TagHeap_Remove_kept[of h C u] Cons.IH[of h'] have "kept h (final (run A C ops h'))"
        by (auto intro: kept_trans)
      with OpRemove Ok show ?thesis by (auto split: outcome.splits)
    qed
  qed
qed

lemma scan_field_mem:
  "scan_field key sf i t = Inr t' \<Longrightarrow> mem t' = mem t \<and> s t' = s t \<and> pt t' = pt t"
  by (auto simp: scan_field_def Let_def split: if_splits option.splits)

lemma scan_fields_mem:
  "scan_fields key sfs i t = Inr t' \<Longrightarrow> mem t' = mem t \<and> s t' = s t \<and> pt t' = pt t"
proof (induction sfs arbitrary: i t)
  case Nil
  then show ?case by simp
next
  case (Cons sf sfs)
  from Cons.prems obtain t1 where "scan_field key sf i t = Inr t1"
    and "scan_fields key sfs (i + 1) t1 = Inr t'"
    by (auto split: sum.splits)
  with Cons.IH[of "i + 1" t1] scan_field_mem[of key sf i t t1] show ?case by simp
qed

lemma New_frame:
  assumes "New key ps m = Inr r"
  shows "frame (indexFieldIndex (final r)) m (mem (final r))"
proof -
  from assms obtain sfs v t where ps: "ps = Arg (slice_ptr sfs) v"
    and t: "scan_fields key sfs 0
      \<lparr>s = [], pt = PtrTo (StructOf sfs), minHeap = False, keyFieldIndex = - 1,
       indexFieldIndex = - 1, less_fn = (\<lambda>vi vj. None), swapTemp = None, mem = m\<rparr> = Inr t"
    and r: "r = (case v of None \<Rightarrow> Panic t | Some sl \<Rightarrow> heap_Init (t\<lparr>s := sl\<rparr>))"
    by (auto simp: New_def newTagHeap_def slice_ptr_def
        split: arg.splits rtype.splits sum.splits if_splits option.splits)
  from scan_fields_mem[OF t] have m: "mem t = m" by simp
  show ?thesis
  proof (cases v)
    case None
    with r m show ?thesis by simp
  next
    case (Some sl)
    with r heap_Init_kept[of "t\<lparr>s := sl\<rparr>"] m show ?thesis
      by (simp add: kept_def same_descriptor_def)
  qed
qed

text \<open>
  Claim C10. Whatever the container holds and whatever the arguments are, \<^verbatim>\<open>Push\<close>,
  \<^verbatim>\<open>Pop\<close> and \<^verbatim>\<open>Remove\<close>, every sequence of them, and the construction by \<^verbatim>\<open>New\<close> keep
  every field of every record in memory but the index field of the descriptor, and keep
  the memory as it is when there is no index field; this holds for the state at a panic
  too. \<^verbatim>\<open>Len\<close> returns a number and has no state to change. The descriptor itself is
  kept by the three methods.
\<close>

theorem only_index_field_written:
  "frame (indexFieldIndex h) (mem h) (mem (final (TagHeap_Push A h u)))
   \<and> frame (indexFieldIndex h) (mem h) (mem (final (TagHeap_Pop h)))
   \<and> frame (indexFieldIndex h) (mem h) (mem (final (TagHeap_Remove C h u)))
   \<and> frame (indexFieldIndex h) (mem h) (mem (final (run A C ops h)))
   \<and> (New key ps m = Inr r \<longrightarrow> frame (indexFieldIndex (final r)) m (mem (final r)))
   \<and> TagHeap_Len h = int (length (s h))"
  using TagHeap_Push_kept[of h A u] TagHeap_Pop_kept[of h] TagHeap_Remove_kept[of h C u]
    run_kept[of h A C ops] New_frame[of key ps m r]
  by (simp add: kept_def TagHeap_Len_def Len_def)

theorem only_index_field_written_witness:
  "New ''heap'' (Arg (slice_ptr example_struct) (Some [])) example_mem
     = Inr (Ok () example_empty)
   \<and> frame 1 example_mem (mem (final (TagHeap_Push (=) example_empty (example_rec 0))))
   \<and> frame 1 example_mem (mem (final (run (=) (=) example_ops example_empty)))
   \<and> frame 1 example_mem example_mem"
  using only_index_field_written[of example_empty "(=)" "example_rec 0" "(=)" example_ops
      "''heap''" "Arg (slice_ptr example_struct) (Some [])" example_mem "Ok () example_empty"]
    New_example
  by (simp add: example_empty_def)

subsection \<open>Calls that return\<close>

lemma Swap_Ok:
  assumes "Swap h i j = Ok () h'"
  shows "0 \<le> i \<and> i < Len h \<and> 0 \<le> j \<and> j < Len h"
    and "s h' = (s h)[nat i := s h ! nat j, nat j := s h ! nat i]"
    and "indexFieldIndex h < 0 \<Longrightarrow> mem h' = mem h"
    and "0 \<le> indexFieldIndex h \<Longrightarrow>
      \<exists>a b. s h ! nat j = Some a \<and> s h ! nat i = Some b
        \<and> nat (indexFieldIndex h) < length (mem h a)
        \<and> nat (indexFieldIndex h) < length (mem h b)
        \<and> mem h' = (let m1 = (mem h)(a := (mem h a)[nat (indexFieldIndex h) := VInt i])
                    in m1(b := (m1 b)[nat (indexFieldIndex h) := VInt j]))"
proof -
  from assms show r: "0 \<le> i \<and> i < Len h \<and> 0 \<le> j \<and> j < Len h"
    by (auto simp: Swap_def Index_def Len_def Let_def split: option.splits if_splits)
  from assms show "s h' = (s h)[nat i := s h ! nat j, nat j := s h ! nat i]"
    by (auto simp: Swap_def Index_def Len_def Let_def dest!: SetInt_Some
        split: option.splits if_splits)
  from assms show "indexFieldIndex h < 0 \<Longrightarrow> mem h' = mem h"
    by (auto simp: Swap_def Index_def Len_def Let_def split: option.splits if_splits)
  show "\<exists>a b. s h ! nat j = Some a \<and> s h ! nat i = Some b
        \<and> nat (indexFieldIndex h) < length (mem h a)
        \<and> nat (indexFieldIndex h) < length (mem h b)
        \<and> mem h' = (let m1 = (mem h)(a := (mem h a)[nat (indexFieldIndex h) := VInt i])
                    in m1(b := (m1 b)[nat (indexFieldIndex h) := VInt j]))"
    if x: "0 \<le> indexFieldIndex h"
  proof -
    define h3 where "h3 = h\<lparr>swapTemp := s h ! nat i,
      s := (s h)[nat i := s h ! nat j, nat j := s h ! nat i]\<rparr>"
    have i3: "s h3 ! nat i = s h ! nat j" and j3: "s h3 ! nat j = s h ! nat i"
      using r by (auto simp: h3_def Len_def nth_list_update)
    from assms x r obtain h4 where
      h4: "SetInt h3 (s h3 ! nat i) (indexFieldIndex h) i = Some h4"
      and h5: "SetInt h4 (s h4 ! nat j) (indexFieldIndex h4) j = Some h'"
      by (auto simp: Swap_def Index_def Len_def Let_def h3_def split: option.splits if_splits)
    from SetInt_Some[OF h4] i3 obtain a where a: "s h ! nat j = Some a"
      and la: "nat (indexFieldIndex h) < length (mem h a)"
      and h4': "h4 = h3\<lparr>mem := (mem h)(a := (mem h a)[nat (indexFieldIndex h) := VInt i])\<rparr>"
      by (auto simp: h3_def)
    from h4' have x4: "indexFieldIndex h4 = indexFieldIndex h" by (simp add: h3_def)
    from SetInt_Some[OF h5] j3 h4' x4 obtain b where b: "s h ! nat i = Some b"
      and lb: "nat (indexFieldIndex h) < length (mem h4 b)"
      and h5': "h' = h4\<lparr>mem := (mem h4)(b := (mem h4 b)[nat (indexFieldIndex h) := VInt j])\<rparr>"
      by auto
    from lb h4' have "nat (indexFieldIndex h) < length (mem h b)"
      by (auto split: if_splits)
    with a b la h4' h5' show ?thesis by (auto simp: Let_def)
  qed
qed

lemma Swap_kept_Ok: "Swap h i j = Ok () h' \<Longrightarrow> kept h h'"
  using Swap_kept[of h i j] by simp

lemma Swap_set: "Swap h i j = Ok () h' \<Longrightarrow> mset (s h') = mset (s h) \<and> length (s h') = length (s h)"
proof -
  assume a: "Swap h i j = Ok () h'"
  from Swap_Ok(1)[OF a] have "nat i < length (s h)" "nat j < length (s h)"
    by (auto simp: Len_def)
  with Swap_Ok(2)[OF a] show ?thesis
    by (simp add: mset_swap)
qed

lemma comparator_total:
  "comparator f \<Longrightarrow> f a a \<noteq> None \<Longrightarrow> f b b \<noteq> None \<Longrightarrow> \<exists>r. f a b = Some r"
  unfolding comparator_def
  by (elim disjE; cases a; cases b) simp_all

lemma rec_ok_descriptor: "same_descriptor h h' \<Longrightarrow> rec_ok h' r = rec_ok h r"
  by (simp add: rec_ok_def same_descriptor_def)

lemma rec_ok_updates [simp]:
  "rec_ok (h\<lparr>mem := m\<rparr>) r = rec_ok h r"
  "rec_ok (h\<lparr>s := sl\<rparr>) r = rec_ok h r"
  "rec_ok (h\<lparr>swapTemp := p\<rparr>) r = rec_ok h r"
  by (simp_all add: rec_ok_def)

lemma rec_ok_update:
  assumes "rec_ok h r" "keyFieldIndex h \<noteq> indexFieldIndex h" "0 \<le> keyFieldIndex h"
    and "0 \<le> indexFieldIndex h"
  shows "rec_ok h (r[nat (indexFieldIndex h) := VInt v])"
proof -
  from assms have "nat (keyFieldIndex h) \<noteq> nat (indexFieldIndex h)"
    by auto
  with assms show ?thesis
    by (auto simp: rec_ok_def nth_list_update)
qed

lemma SetInt_wellformed:
  assumes "wellformed h" "SetInt h p f v = Some h'" "f = indexFieldIndex h"
  shows "wellformed h'"
proof -
  from SetInt_Some[OF assms(2)] obtain a where
    h': "h' = h\<lparr>mem := (mem h)(a := (mem h a)[nat f := VInt v])\<rparr>" and f: "0 \<le> f"
    by auto
  have "rec_ok h' (mem h' c)" for c
    using assms(1,3) f rec_ok_update[of h "mem h a" v]
    by (auto simp: wellformed_def h')
  with assms(1) show ?thesis
    by (simp add: wellformed_def h')
qed

lemma SetInt_returns:
  assumes "wellformed h" "p \<noteq> None" "0 \<le> f" "f = indexFieldIndex h"
  shows "\<exists>h'. SetInt h p f v = Some h'"
proof -
  from assms(2) obtain a where p: "p = Some a" by auto
  from assms(1,3,4) have "f < int (length (mem h a))" "is_VInt (mem h a ! nat f)"
    by (auto simp: wellformed_def rec_ok_def)
  with p assms(3) show ?thesis
    by (cases "mem h a ! nat f") (auto simp: SetInt_def)
qed

lemma Swap_returns:
  assumes wf: "wellformed h" and r: "0 \<le> i" "i < Len h" "0 \<le> j" "j < Len h"
  shows "\<exists>h'. Swap h i j = Ok () h'"
proof -
  define h3 where "h3 = h\<lparr>swapTemp := s h ! nat i,
      s := (s h)[nat i := s h ! nat j, nat j := s h ! nat i]\<rparr>"
  from r have ni: "nat i < length (s h)" and nj: "nat j < length (s h)"
    by (auto simp: Len_def)
  have "mset (s h3) = mset (s h)"
    using mset_swap[OF nj ni] by (simp add: h3_def)
  then have "set (s h3) = set (s h)" by (rule mset_eq_setD)
  with wf have wf3: "wellformed h3"
    by (simp add: wellformed_def h3_def rec_ok_def)
  have l3: "length (s h3) = length (s h)" by (simp add: h3_def)
  have x3: "indexFieldIndex h3 = indexFieldIndex h" by (simp add: h3_def)
  show ?thesis
  proof (cases "0 \<le> indexFieldIndex h")
    case False
    with r show ?thesis
      by (simp add: Swap_def Index_def Let_def Len_def)
  next
    case True
    from wf3 ni l3 have "s h3 ! nat i \<noteq> None"
      by (metis nth_mem wellformed_def)
    from SetInt_returns[OF wf3 this True x3[symmetric]] obtain h4 where
      h4: "SetInt h3 (s h3 ! nat i) (indexFieldIndex h) i = Some h4" by blast
    from SetInt_wellformed[OF wf3 h4 x3[symmetric]] have wf4: "wellformed h4" .
    from SetInt_Some[OF h4] have s4: "s h4 = s h3" and x4: "indexFieldIndex h4 = indexFieldIndex h"
      by (auto simp: x3)
    from wf4 nj l3 s4 have "s h4 ! nat j \<noteq> None"
      by (metis nth_mem wellformed_def)
    from SetInt_returns[OF wf4 this True x4[symmetric]] obtain h5 where
      h5: "SetInt h4 (s h4 ! nat j) (indexFieldIndex h) j = Some h5" by blast
    from r True h4 h5 x4 show ?thesis
      by (simp add: Swap_def Index_def Let_def Len_def h3_def)
  qed
qed

lemma Swap_wellformed:
  assumes wf: "wellformed h" and sw: "Swap h i j = Ok () h'"
  shows "wellformed h'"
proof -
  note r = Swap_Ok(1)[OF sw]
  define h3 where "h3 = h\<lparr>swapTemp := s h ! nat i,
      s := (s h)[nat i := s h ! nat j, nat j := s h ! nat i]\<rparr>"
  from r have ni: "nat i < length (s h)" and nj: "nat j < length (s h)"
    by (auto simp: Len_def)
  have "mset (s h3) = mset (s h)"
    using mset_swap[OF nj ni] by (simp add: h3_def)
  then have "set (s h3) = set (s h)" by (rule mset_eq_setD)
  with wf have wf3: "wellformed h3"
    by (simp add: wellformed_def h3_def rec_ok_def)
  show ?thesis
  proof (cases "0 \<le> indexFieldIndex h")
    case False
    with sw r have "h' = h3"
      by (simp add: Swap_def Index_def Let_def Len_def h3_def)
    with wf3 show ?thesis by simp
  next
    case True
    with sw r obtain h4 where
      h4: "SetInt h3 (s h3 ! nat i) (indexFieldIndex h3) i = Some h4"
      and h5: "SetInt h4 (s h4 ! nat j) (indexFieldIndex h4) j = Some h'"
      by (auto simp: Swap_def Index_def Len_def Let_def h3_def split: option.splits if_splits)
    from SetInt_wellformed[OF wf3 h4 refl] have "wellformed h4" .
    from SetInt_wellformed[OF this h5 refl] show ?thesis .
  qed
qed

lemma Less_returns:
  assumes wf: "wellformed h" and r: "0 \<le> i" "i < Len h" "0 \<le> j" "j < Len h"
  shows "\<exists>b. Less h i j = Some b"
proof -
  from r have ni: "nat i < length (s h)" and nj: "nat j < length (s h)"
    by (auto simp: Len_def)
  from wf ni obtain a where a: "s h ! nat i = Some a"
    by (metis nth_mem wellformed_def not_None_eq)
  from wf nj obtain b where b: "s h ! nat j = Some b"
    by (metis nth_mem wellformed_def not_None_eq)
  from wf have ka: "Field h (Some a) (keyFieldIndex h) = Some (mem h a ! nat (keyFieldIndex h))"
    and kb: "Field h (Some b) (keyFieldIndex h) = Some (mem h b ! nat (keyFieldIndex h))"
    by (auto simp: Field_def wellformed_def rec_ok_def)
  from wf have "\<exists>r. less_fn h (mem h a ! nat (keyFieldIndex h)) (mem h b ! nat (keyFieldIndex h)) = Some r"
    by (intro comparator_total) (auto simp: wellformed_def rec_ok_def)
  with r a b ka kb show ?thesis
    by (auto simp: Less_def Index_def)
qed

lemma swaps_trans: "swaps h h1 \<Longrightarrow> swaps h1 h2 \<Longrightarrow> swaps h h2"
  by (induction rule: swaps.induct) (auto intro: swaps.intros)

lemma swaps_single: "Swap h i j = Ok () h' \<Longrightarrow> swaps h h'"
  by (blast intro: swaps.intros)

lemma up_swaps: "up h j = Ok () h' \<Longrightarrow> swaps h h'"
proof (induction h j rule: up_induct)
  case (swap h j h1)
  then show ?case by (auto intro: swaps.intros)
qed (auto intro: swaps.intros)

lemma down_loop_swaps: "down_loop h i n = Ok i' h' \<Longrightarrow> swaps h h'"
proof (induction h i rule: down_loop_induct[where n=n])
  case (swap h i j h1)
  then show ?case by (auto intro: swaps.intros)
qed (auto intro: swaps.intros)

lemma down_swaps: "down h i n = Ok moved h' \<Longrightarrow> swaps h h'"
  by (cases "down_loop h i n") (auto simp: down_def dest: down_loop_swaps)

lemma init_loop_swaps: "init_loop h i n = Ok () h' \<Longrightarrow> swaps h h'"
proof (induction h i n rule: init_loop.induct)
  case (1 h i n)
  show ?case
  proof (cases "0 \<le> i")
    case False
    with "1.prems" show ?thesis by (subst (asm) init_loop.simps) (simp add: swaps_refl)
  next
    case True
    with "1.prems" obtain moved h1 where d: "down h i n = Ok moved h1"
      and r: "init_loop h1 (i - 1) n = Ok () h'"
      by (subst (asm) init_loop.simps) (auto split: outcome.splits)
    from "1.IH"[OF True d r] down_swaps[OF d] show ?thesis
      by (rule swaps_trans[rotated])
  qed
qed

lemma swaps_facts:
  "swaps h h' \<Longrightarrow> kept h h' \<and> mset (s h') = mset (s h) \<and> length (s h') = length (s h)"
proof (induction rule: swaps.induct)
  case (swaps_refl h)
  show ?case by simp
next
  case (swaps_step h i j h1 h2)
  with Swap_kept_Ok[OF swaps_step(1)] Swap_set[OF swaps_step(1)] show ?case
    by (auto intro: kept_trans)
qed

lemma swaps_Len: "swaps h h' \<Longrightarrow> Len h' = Len h"
  by (simp add: Len_def swaps_facts)

lemma swaps_wellformed: "swaps h h' \<Longrightarrow> wellformed h \<Longrightarrow> wellformed h'"
  by (induction rule: swaps.induct) (auto intro: Swap_wellformed)

lemma parent_range: "0 \<le> j \<Longrightarrow> 0 \<le> (j - 1) sdiv 2 \<and> (j - 1) sdiv 2 \<le> (j::int)"
  by (cases "j = 0") (auto simp: signed_divide_int_def sgn_if)

lemma up_returns:
  "wellformed h \<Longrightarrow> 0 \<le> j \<Longrightarrow> j < Len h \<Longrightarrow> \<exists>h'. up h j = Ok () h'"
proof (induction h j rule: up_induct)
  case (less_panic h j)
  with Less_returns[of h j "(j - 1) sdiv 2"] parent_range[of j] show ?case by auto
next
  case (swap_panic h j h')
  with Swap_returns[of h "(j - 1) sdiv 2" j] parent_range[of j] show ?case by auto
next
  case (swap h j h')
  from swap Swap_wellformed[of h "(j - 1) sdiv 2" j h'] swaps_Len[OF swaps_single[OF swap(3)]]
    parent_range[of j]
  show ?case by auto
qed auto

lemma better_child_range:
  "better_child h i n = Some j \<Longrightarrow> j = 2 * i + 1 \<or> (j = 2 * i + 1 + 1 \<and> j < n)"
  by (auto simp: better_child_def split: option.splits if_splits)

lemma down_loop_returns:
  "wellformed h \<Longrightarrow> 0 \<le> i \<Longrightarrow> n \<le> Len h \<Longrightarrow> \<exists>i' h'. down_loop h i n = Ok i' h'"
proof (induction h i rule: down_loop_induct[where n=n])
  case (child_panic h i)
  with Less_returns[of h "2 * i + 1 + 1" "2 * i + 1"] show ?case
    by (auto simp: better_child_def split: option.splits if_splits)
next
  case (less_panic h i j)
  with Less_returns[of h j i] better_child_range[of h i n j] show ?case by auto
next
  case (swap_panic h i j h')
  with Swap_returns[of h i j] better_child_range[of h i n j] show ?case by auto
next
  case (swap h i j h')
  from swap Swap_wellformed[of h i j h'] swaps_Len[OF swaps_single[OF swap(4)]]
    better_child_range[of h i n j]
  show ?case by auto
qed auto

lemma down_returns:
  assumes "wellformed h" "0 \<le> i" "n \<le> Len h"
  shows "\<exists>moved h'. down h i n = Ok moved h'"
  using down_loop_returns[OF assms] by (auto simp: down_def)

lemma init_loop_returns:
  "wellformed h \<Longrightarrow> n \<le> Len h \<Longrightarrow> \<exists>h'. init_loop h i n = Ok () h'"
proof (induction h i n rule: init_loop.induct)
  case (1 h i n)
  show ?case
  proof (cases "0 \<le> i")
    case False
    then show ?thesis by (subst init_loop.simps) simp
  next
    case True
    from down_returns[OF "1.prems"(1) True "1.prems"(2)] obtain moved h1 where
      d: "down h i n = Ok moved h1" by blast
    note sw = down_swaps[OF d]
    from "1.IH"[OF True d swaps_wellformed[OF sw "1.prems"(1)]] "1.prems"(2) swaps_Len[OF sw]
    obtain h' where "init_loop h1 (i - 1) n = Ok () h'" by auto
    with True d show ?thesis by (subst init_loop.simps) simp
  qed
qed

lemma heap_Init_returns: "wellformed h \<Longrightarrow> \<exists>h'. heap_Init h = Ok () h'"
  by (simp add: heap_Init_def Let_def init_loop_returns)

lemma heap_Init_swaps: "heap_Init h = Ok () h' \<Longrightarrow> swaps h h'"
  by (auto simp: heap_Init_def Let_def dest: init_loop_swaps)

lemma Push_returns:
  assumes "wellformed h"
  shows "\<exists>h'. Push h (Iface t (Some a)) = Ok () h' \<and> wellformed h' \<and> s h' = s h @ [Some a]"
proof (cases "0 \<le> indexFieldIndex h")
  case False
  with assms show ?thesis by (simp add: Push_def wellformed_def)
next
  case True
  from SetInt_returns[OF assms _ True refl, of "Some a" "Len h"] obtain h1 where
    h1: "SetInt h (Some a) (indexFieldIndex h) (Len h) = Some h1" by auto
  from SetInt_wellformed[OF assms h1 refl] SetInt_Some[OF h1] have "wellformed h1" "s h1 = s h"
    by auto
  with h1 True show ?thesis by (simp add: Push_def wellformed_def)
qed

lemma heap_Push_returns:
  assumes "wellformed h"
  shows "\<exists>h'. heap_Push h (Iface t (Some a)) = Ok () h'"
proof -
  from Push_returns[OF assms, of t a] obtain h1 where
    p: "Push h (Iface t (Some a)) = Ok () h1" and wf: "wellformed h1"
    and s1: "s h1 = s h @ [Some a]" by blast
  from s1 have "0 \<le> Len h1 - 1" "Len h1 - 1 < Len h1" by (simp_all add: Len_def)
  from up_returns[OF wf this] p show ?thesis by (simp add: heap_Push_def)
qed

text \<open>
  Claim C7, amended. \<^verbatim>\<open>Push\<close> with a nil interface, or with an argument whose dynamic
  type \<^verbatim>\<open>AssignableTo\<close> rejects for the pointer-to-record type of the container, panics
  with the container and the storage as they were before the call. On a well-formed
  container, \<^verbatim>\<open>Push\<close> with a non-nil pointer of an assignable type returns.
\<close>

theorem TagHeap_Push_faults:
  "TagHeap_Push A h Nil_iface = Panic h
   \<and> (\<not> A t (pt h) \<longrightarrow> TagHeap_Push A h (Iface t p) = Panic h)
   \<and> (wellformed h \<and> A t (pt h) \<longrightarrow> returns (TagHeap_Push A h (Iface t (Some a))))"
  using heap_Push_returns[of h t a] by (auto simp: TagHeap_Push_def)

lemma wellformed_example_empty: "wellformed example_empty"
  by (auto simp: wellformed_def example_empty_def example_mem_def rec_ok_def comparator_def)

theorem TagHeap_Push_faults_witness:
  "TagHeap_Push (=) example_empty Nil_iface = Panic example_empty
   \<and> OtherType ''int'' \<noteq> pt example_empty
   \<and> TagHeap_Push (=) example_empty (Iface (OtherType ''int'') None) = Panic example_empty
   \<and> wellformed example_empty
   \<and> PtrTo (StructOf example_struct) = pt example_empty
   \<and> returns (TagHeap_Push (=) example_empty (Iface (PtrTo (StructOf example_struct)) (Some 0)))"
  using TagHeap_Push_faults[of "(=)" example_empty "OtherType ''int''" None 0]
    TagHeap_Push_faults[of "(=)" example_empty "PtrTo (StructOf example_struct)" None 0]
    wellformed_example_empty
  by (simp add: example_empty_def)

text \<open>
  Claim C7, as stated, fails in its second half: a nil pointer of the exact
  pointer-to-record type is a correctly typed argument, and on the container of the
  example (which has an index field) \<^verbatim>\<open>Push\<close> panics on it, setting the index field
  through the nil pointer.
\<close>

theorem Push_typed_nil_panics:
  "PtrTo (StructOf example_struct) = pt example_empty
   \<and> \<not> returns (TagHeap_Push (=) example_empty (Iface (PtrTo (StructOf example_struct)) None))"
  by (simp add: TagHeap_Push_def heap_Push_def Push_def SetInt_def example_empty_def)

subsection \<open>The index fields\<close>

lemma Swap_position:
  assumes sw: "Swap h i j = Ok () h'" and x: "0 \<le> indexFieldIndex h"
    and d: "distinct (s h)" and pc: "position_consistent h"
  shows "position_consistent h' \<and> distinct (s h')"
proof -
  note r = Swap_Ok(1)[OF sw] and s' = Swap_Ok(2)[OF sw]
  from r have ni: "nat i < length (s h)" and nj: "nat j < length (s h)"
    by (auto simp: Len_def)
  define x' where "x' = nat (indexFieldIndex h)"
  from Swap_Ok(4)[OF sw x] obtain a b where a: "s h ! nat j = Some a"
    and b: "s h ! nat i = Some b"
    and la: "x' < length (mem h a)" and lb: "x' < length (mem h b)"
    and m': "mem h' = (let m1 = (mem h)(a := (mem h a)[x' := VInt i])
                    in m1(b := (m1 b)[x' := VInt j]))"
    unfolding x'_def by blast
  from Swap_kept_Ok[OF sw] have xx: "indexFieldIndex h' = indexFieldIndex h"
    by (simp add: kept_def same_descriptor_def)
  from Swap_set[OF sw] d have d': "distinct (s h')" and len: "length (s h') = length (s h)"
    by (metis mset_eq_imp_distinct_iff)+
  have "Field h' (s h' ! k) (indexFieldIndex h') = Some (VInt (int k))"
    if k: "k < length (s h)" for k
  proof -
    consider (j) "k = nat j" | (i) "k = nat i" "k \<noteq> nat j" | (other) "k \<noteq> nat i" "k \<noteq> nat j"
      by blast
    then show ?thesis
    proof cases
      case j
      with s' nj have "s h' ! k = Some b" by (simp add: b)
      moreover have "mem h' b ! x' = VInt j" "x' < length (mem h' b)"
        using la lb by (auto simp: m' Let_def)
      ultimately show ?thesis using x j r by (simp add: Field_def xx x'_def)
    next
      case i
      with s' ni have sk: "s h' ! k = Some a" by (simp add: a)
      from i d ni nj a b have "a \<noteq> b"
        by (metis nth_eq_iff_index_eq)
      then have "mem h' a ! x' = VInt i" "x' < length (mem h' a)"
        using la by (auto simp: m' Let_def)
      with sk show ?thesis using x i r by (simp add: Field_def xx x'_def)
    next
      case other
      with s' have sk: "s h' ! k = s h ! k" by simp
      from pc k have f: "Field h (s h ! k) (indexFieldIndex h) = Some (VInt (int k))"
        by (simp add: position_consistent_def)
      then obtain c where c: "s h ! k = Some c" by (auto simp: Field_def split: option.splits)
      from other d k ni nj a b c have "c \<noteq> a" "c \<noteq> b"
        by (metis nth_eq_iff_index_eq)+
      then have "mem h' c = mem h c" by (simp add: m' Let_def)
      with f sk c show ?thesis by (auto simp: Field_def xx split: if_splits)
    qed
  qed
  with d' len show ?thesis by (simp add: position_consistent_def)
qed

lemma swaps_position:
  "swaps h h' \<Longrightarrow> 0 \<le> indexFieldIndex h \<Longrightarrow> distinct (s h) \<Longrightarrow> position_consistent h \<Longrightarrow>
   position_consistent h' \<and> distinct (s h') \<and> indexFieldIndex h' = indexFieldIndex h"
proof (induction rule: swaps.induct)
  case (swaps_refl h)
  then show ?case by simp
next
  case (swaps_step h i j h1 h2)
  from Swap_kept_Ok[OF swaps_step(1)] have "indexFieldIndex h1 = indexFieldIndex h"
    by (simp add: kept_def same_descriptor_def)
  with swaps_step Swap_position[OF swaps_step(1)] show ?case by simp
qed

lemma swaps_index_kept: "swaps h h' \<Longrightarrow> index_kept h \<Longrightarrow> index_kept h'"
  using swaps_position[of h h'] by (simp add: index_kept_def)

lemma Push_index_kept:
  assumes p: "Push h (Iface t p) = Ok () h'" and ik: "index_kept h" and fresh: "p \<notin> set (s h)"
  shows "index_kept h'"
proof -
  from ik have x: "0 \<le> indexFieldIndex h" by (simp add: index_kept_def)
  with p obtain h1 where h1: "SetInt h p (indexFieldIndex h) (Len h) = Some h1"
    and h': "h' = h1\<lparr>s := s h1 @ [p]\<rparr>"
    by (auto simp: Push_def split: option.splits)
  from SetInt_Some[OF h1] obtain a where a: "p = Some a"
    and la: "nat (indexFieldIndex h) < length (mem h a)"
    and h1': "h1 = h\<lparr>mem := (mem h)(a := (mem h a)[nat (indexFieldIndex h) := VInt (Len h)])\<rparr>"
    by auto
  have "Field h' (s h' ! k) (indexFieldIndex h') = Some (VInt (int k))"
    if k: "k < length (s h')" for k
  proof (cases "k < length (s h)")
    case True
    with ik have f: "Field h (s h ! k) (indexFieldIndex h) = Some (VInt (int k))"
      by (simp add: index_kept_def position_consistent_def)
    then obtain c where c: "s h ! k = Some c" by (auto simp: Field_def split: option.splits)
    with fresh a True have "c \<noteq> a" by (metis nth_mem)
    with f c True show ?thesis
      by (auto simp: h' h1' Field_def nth_append split: if_splits)
  next
    case False
    with k have "k = length (s h)" by (simp add: h' h1')
    with x la show ?thesis
      by (auto simp: h' h1' Field_def a Len_def)
  qed
  moreover from ik fresh have "distinct (s h')" by (simp add: h' h1' index_kept_def)
  ultimately show ?thesis using x by (simp add: index_kept_def position_consistent_def h' h1')
qed

lemma Field_s_update [simp]: "Field (h\<lparr>s := sl\<rparr>) p f = Field h p f"
  by (cases p) (simp_all add: Field_def)

lemma Pop_index_kept:
  assumes "Pop h = Ok r h'" "index_kept h"
  shows "index_kept h'"
  using assms
  by (auto simp: Pop_def Let_def index_kept_def position_consistent_def split: if_splits)

lemma heap_Push_index_kept:
  assumes "heap_Push h (Iface t p) = Ok () h'" "index_kept h" "p \<notin> set (s h)"
  shows "index_kept h'"
proof -
  from assms(1) obtain h1 where p: "Push h (Iface t p) = Ok () h1"
    and u: "up h1 (Len h1 - 1) = Ok () h'"
    by (auto simp: heap_Push_def split: outcome.splits)
  from swaps_index_kept[OF up_swaps[OF u] Push_index_kept[OF p assms(2,3)]] show ?thesis .
qed

lemma heap_Pop_index_kept:
  assumes "heap_Pop h = Ok r h'" "index_kept h"
  shows "index_kept h'"
proof -
  from assms(1) obtain h1 moved h2 where sw: "Swap h 0 (Len h - 1) = Ok () h1"
    and d: "down h1 0 (Len h - 1) = Ok moved h2" and p: "Pop h2 = Ok r h'"
    by (auto simp: heap_Pop_def Let_def split: outcome.splits)
  from swaps_index_kept[OF swaps_single[OF sw] assms(2)] have "index_kept h1" .
  from swaps_index_kept[OF down_swaps[OF d] this] have "index_kept h2" .
  from Pop_index_kept[OF p this] show ?thesis .
qed

lemma heap_Remove_index_kept:
  assumes "heap_Remove h i = Ok r h'" "index_kept h"
  shows "index_kept h'"
proof (cases "Len h - 1 = i")
  case True
  with assms Pop_index_kept[of h r h'] show ?thesis by (simp add: heap_Remove_def)
next
  case False
  with assms(1) obtain h1 moved h2 where sw: "Swap h i (Len h - 1) = Ok () h1"
    and d: "down h1 i (Len h - 1) = Ok moved h2"
    and rest: "(if \<not> moved then (case up h2 i of Panic h' \<Rightarrow> Panic h' | Ok u' h3 \<Rightarrow> Pop h3)
               else Pop h2) = Ok r h'"
    by (auto simp: heap_Remove_def Let_def split: outcome.splits)
  from swaps_index_kept[OF swaps_single[OF sw] assms(2)] have "index_kept h1" .
  from swaps_index_kept[OF down_swaps[OF d] this] have k2: "index_kept h2" .
  show ?thesis
  proof (cases moved)
    case True
    with rest Pop_index_kept[OF _ k2] show ?thesis by simp
  next
    case False
    with rest obtain h3 where u: "up h2 i = Ok () h3" and p: "Pop h3 = Ok r h'"
      by (auto split: outcome.splits)
    from Pop_index_kept[OF p swaps_index_kept[OF up_swaps[OF u] k2]] show ?thesis .
  qed
qed

lemma run_index_kept:
  "index_kept h \<Longrightarrow> fresh_pushes A C ops h \<Longrightarrow> run A C ops h = Ok rs h' \<Longrightarrow> index_kept h'"
proof (induction ops arbitrary: h rs)
  case Nil
  then show ?case by simp
next
  case (Cons x ops)
  show ?case
  proof (cases x)
    case (OpPush u)
    with Cons.prems obtain h1 where p: "TagHeap_Push A h u = Ok () h1"
      and r: "run A C ops h1 = Ok rs h'" and f: "fresh_pushes A C ops h1"
      by (auto split: outcome.splits)
    from p obtain t q where u: "u = Iface t q" and hp: "heap_Push h (Iface t q) = Ok () h1"
      by (auto simp: TagHeap_Push_def split: iface.splits if_splits)
    from Cons.prems(2) OpPush u have "q \<notin> set (s h)" by simp
    from heap_Push_index_kept[OF hp Cons.prems(1) this] Cons.IH[OF _ f r] show ?thesis
      by simp
  next
    case OpPop
    with Cons.prems obtain r1 rs1 h1 where p: "TagHeap_Pop h = Ok r1 h1"
      and r: "run A C ops h1 = Ok rs1 h'" and f: "fresh_pushes A C ops h1"
      by (auto split: outcome.splits)
    from heap_Pop_index_kept[OF p[unfolded TagHeap_Pop_def] Cons.prems(1)] Cons.IH[OF _ f r]
    show ?thesis by simp
  next
    case (OpRemove u)
    with Cons.prems obtain r1 rs1 h1 where p: "TagHeap_Remove C h u = Ok r1 h1"
      and r: "run A C ops h1 = Ok rs1 h'" and f: "fresh_pushes A C ops h1"
      by (auto split: outcome.splits)
    from p obtain i where "heap_Remove h i = Ok r1 h1"
      by (auto simp: TagHeap_Remove_def split: iface.splits if_splits option.splits fval.splits)
    from heap_Remove_index_kept[OF this Cons.prems(1)] Cons.IH[OF _ f r] show ?thesis
      by simp
  qed
qed

text \<open>
  Claim C3, as stated, fails: a record pushed twice has one index field for two offsets.
  On the empty container of the example, after \<^verbatim>\<open>Push(r)\<close>, \<^verbatim>\<open>Push(r)\<close>, \<^verbatim>\<open>Pop()\<close> with the
  same record \<open>r\<close>, the slice holds \<open>r\<close> at offset 0 and the index field of \<open>r\<close> is 1.
\<close>

theorem pushed_twice_breaks_position:
  "returns (run (=) (=) [OpPush (example_rec 0), OpPush (example_rec 0), OpPop] example_empty)
   \<and> s (final (run (=) (=) [OpPush (example_rec 0), OpPush (example_rec 0), OpPop] example_empty))
     = [Some 0]
   \<and> \<not> position_consistent
        (final (run (=) (=) [OpPush (example_rec 0), OpPush (example_rec 0), OpPop] example_empty))"
  by code_simp

text \<open>
  Claim C3, amended. With an index field configured, start from a container whose slice
  holds no record twice and whose elements all have their offset in their index field
  (the empty container that \<^verbatim>\<open>New\<close> builds over an empty slice is one). Then after every
  sequence of \<^verbatim>\<open>Push\<close>, \<^verbatim>\<open>Pop\<close> and \<^verbatim>\<open>Remove\<close> calls that return, in which no \<^verbatim>\<open>Push\<close> is
  given a record the slice holds at that moment, every element of the slice has its
  offset in its index field, so the slice holds the element at the offset its index
  field names, and still no record is in the slice twice.
\<close>

theorem position_fields_kept:
  assumes "0 \<le> indexFieldIndex h" and "distinct (s h)" and "position_consistent h"
    and "fresh_pushes A C ops h" and "run A C ops h = Ok rs h'"
  shows "position_consistent h' \<and> distinct (s h')
    \<and> (\<forall>e \<in> set (s h'). \<exists>x. Field h' e (indexFieldIndex h') = Some (VInt x)
          \<and> Index h' x = Some e)"
proof -
  from assms have "index_kept h" by (simp add: index_kept_def)
  from run_index_kept[OF this assms(4,5)] have pc: "position_consistent h'"
    and d: "distinct (s h')"
    by (simp_all add: index_kept_def)
  have "\<exists>x. Field h' e (indexFieldIndex h') = Some (VInt x) \<and> Index h' x = Some e"
    if "e \<in> set (s h')" for e
  proof -
    from that obtain i where i: "i < length (s h')" and e: "e = s h' ! i"
      by (auto simp: in_set_conv_nth)
    with pc have "Field h' e (indexFieldIndex h') = Some (VInt (int i))"
      by (simp add: position_consistent_def)
    moreover from i e have "Index h' (int i) = Some e" by (simp add: Index_def Len_def)
    ultimately show ?thesis by blast
  qed
  with pc d show ?thesis by blast
qed

theorem position_fields_kept_witness:
  "0 \<le> indexFieldIndex example_empty \<and> distinct (s example_empty)
   \<and> position_consistent example_empty
   \<and> fresh_pushes (=) (=) (take 7 example_ops) example_empty
   \<and> returns (run (=) (=) (take 7 example_ops) example_empty)
   \<and> length (s (final (run (=) (=) (take 7 example_ops) example_empty))) = 3
   \<and> position_consistent (final (run (=) (=) (take 7 example_ops) example_empty))"
proof -
  have a: "0 \<le> indexFieldIndex example_empty" "distinct (s example_empty)"
    "position_consistent example_empty"
    by (simp_all add: example_empty_def position_consistent_def)
  have f: "fresh_pushes (=) (=) (take 7 example_ops) example_empty" by code_simp
  have r: "returns (run (=) (=) (take 7 example_ops) example_empty)" by code_simp
  have l: "length (s (final (run (=) (=) (take 7 example_ops) example_empty))) = 3"
    by code_simp
  from r obtain rs h' where ok: "run (=) (=) (take 7 example_ops) example_empty = Ok rs h'"
    by (cases "run (=) (=) (take 7 example_ops) example_empty") auto
  from position_fields_kept[OF a f ok] ok a f r l show ?thesis by simp
qed

text \<open>
  The construction over initial contents is left out of the amended claim: \<^verbatim>\<open>New\<close>
  heapifies the slice it is given and sets index fields only where it swaps. Over the
  slice of the records with the keys 1 and 3 (a heap already) the index fields stay 0
  and 0, and \<^verbatim>\<open>Remove\<close> of the record with key 3 then removes and returns the record with
  key 1.
\<close>

lemma New_leaves_index_fields:
  "(case New ''heap'' (Arg (slice_ptr example_struct) (Some [Some 1, Some 0])) example_mem of
      Inr (Ok u h) \<Rightarrow>
        s h = [Some 1, Some 0] \<and> \<not> position_consistent h
        \<and> Field h (Some 0) 1 = Some (VInt 0) \<and> Field h (Some 1) 1 = Some (VInt 0)
        \<and> (case TagHeap_Remove (=) h (example_rec 0) of
              Ok r h' \<Rightarrow> r = example_rec 1
            | Panic h' \<Rightarrow> False)
    | _ \<Rightarrow> False)"
  by code_simp

subsection \<open>The heap order on lists of keys\<close>

lemma heap_le_refl [simp]: "heap_le mn a a"
  by (simp add: heap_le_def)

lemma heap_le_trans: "heap_le mn a b \<Longrightarrow> heap_le mn b c \<Longrightarrow> heap_le mn a c"
  by (auto simp: heap_le_def)

lemma heap_le_total: "heap_le mn a b \<or> heap_le mn b a"
  by (auto simp: heap_le_def)

lemma ord_but_from:
  "ord_but mn ks lo n i \<Longrightarrow> (0 < i \<Longrightarrow> i < n \<Longrightarrow> lo \<le> (i - 1) div 2 \<Longrightarrow> pair_ok mn ks i) \<Longrightarrow>
   ord_from mn ks lo n"
  unfolding ord_but_def ord_from_def by metis

lemma ord_from_but: "ord_from mn ks lo n \<Longrightarrow> ord_but mn ks lo n i"
  by (simp add: ord_but_def ord_from_def)

lemma ord_except_but:
  assumes "ord_except mn ks lo n i"
    and "\<And>c. 0 < c \<Longrightarrow> c < n \<Longrightarrow> (c - 1) div 2 = i \<Longrightarrow> heap_le mn (ks ! i) (ks ! c)"
  shows "ord_but mn ks lo n i"
  using assms unfolding ord_except_def ord_but_def pair_ok_def by metis

lemma child_cases: "0 < c \<Longrightarrow> (c - 1) div 2 = i \<longleftrightarrow> c = 2 * i + 1 \<or> c = 2 * i + 2" for c i :: nat
  by presburger

lemma ord_except_swap_down:
  fixes ks :: "'a::linorder list"
  assumes ex: "ord_except mn ks lo n i"
    and j: "j = 2 * i + 1 \<or> j = 2 * i + 2" "j < n" "n \<le> length ks" and lo: "lo \<le> i"
    and ji: "heap_le mn (ks ! j) (ks ! i)"
    and sib: "\<And>c. c < n \<Longrightarrow> c = 2 * i + 1 \<or> c = 2 * i + 2 \<Longrightarrow> heap_le mn (ks ! j) (ks ! c)"
  shows "ord_except mn (ks[i := ks ! j, j := ks ! i]) lo n j
    \<and> pair_ok mn (ks[i := ks ! j, j := ks ! i]) j"
proof -
  let ?ks = "ks[i := ks ! j, j := ks ! i]"
  from j have ij: "i < j" "i < length ks" "j < length ks" "(j - 1) div 2 = i" "0 < j"
    by auto
  have vi: "?ks ! i = ks ! j" and vj: "?ks ! j = ks ! i"
    using ij by (simp_all add: nth_list_update)
  have vo: "?ks ! k = ks ! k" if "k \<noteq> i" "k \<noteq> j" for k
    using that by simp
  have pj: "pair_ok mn ?ks j"
    using ji ij by (simp add: pair_ok_def vi vj)
  have p1: "pair_ok mn ?ks c"
    if c: "0 < c" "c < n" "lo \<le> (c - 1) div 2" "c \<noteq> j" "(c - 1) div 2 \<noteq> j" for c
  proof -
    consider (atI) "c = i" | (sib) "c \<noteq> i" "(c - 1) div 2 = i" | (other) "c \<noteq> i" "(c - 1) div 2 \<noteq> i"
      by blast
    then show ?thesis
    proof cases
      case atI
      with c have gi: "0 < i" "lo \<le> (i - 1) div 2" by auto
      from gi have pi: "(i - 1) div 2 \<noteq> i" "(i - 1) div 2 \<noteq> j" using ij by auto
      from ex gi j(2) ij have "heap_le mn (ks ! ((i - 1) div 2)) (ks ! j)"
        unfolding ord_except_def grand_ok_def by blast
      with atI pi show ?thesis by (simp add: pair_ok_def vi vo)
    next
      case sib
      from sib(2) c(1) have "c = 2 * i + 1 \<or> c = 2 * i + 2" by presburger
      from assms(7)[OF c(2) this] sib c show ?thesis
        by (simp add: pair_ok_def vi vo)
    next
      case other
      with ex c have "pair_ok mn ks c" unfolding ord_except_def by blast
      with other c show ?thesis by (simp add: pair_ok_def vo)
    qed
  qed
  have g: "grand_ok mn ?ks lo n j"
    unfolding grand_ok_def
  proof (intro impI allI)
    fix c assume a: "0 < j \<and> lo \<le> (j - 1) div 2" and c: "0 < c \<and> c < n \<and> (c - 1) div 2 = j"
    from c ij have ne: "c \<noteq> i" "c \<noteq> j" "(c - 1) div 2 \<noteq> i" by auto
    from c lo ij have "lo \<le> (c - 1) div 2" by auto
    with ex c ne have "pair_ok mn ks c" unfolding ord_except_def by blast
    with c ne ij show "heap_le mn (?ks ! ((j - 1) div 2)) (?ks ! c)"
      by (simp add: pair_ok_def vi vo)
  qed
  from p1 g pj show ?thesis unfolding ord_except_def by blast
qed

lemma ord_but_swap_up:
  fixes ks :: "'a::linorder list"
  assumes ob: "ord_but mn ks 0 n j" and g: "grand_ok mn ks 0 n j"
    and j: "0 < j" "j < n" "n \<le> length ks" and p: "p = (j - 1) div 2"
    and jp: "heap_le mn (ks ! j) (ks ! p)"
  shows "ord_but mn (ks[p := ks ! j, j := ks ! p]) 0 n p
    \<and> grand_ok mn (ks[p := ks ! j, j := ks ! p]) 0 n p"
proof -
  let ?ks = "ks[p := ks ! j, j := ks ! p]"
  from j p have pj: "p < j" "p < length ks" "j < length ks" "p < n" by auto
  from p have par: "(j - 1) div 2 = p" by simp
  have vp: "?ks ! p = ks ! j" and vj: "?ks ! j = ks ! p"
    using pj by (simp_all add: nth_list_update)
  have vo: "?ks ! k = ks ! k" if "k \<noteq> p" "k \<noteq> j" for k
    using that by simp
  have old: "heap_le mn (ks ! ((c - 1) div 2)) (ks ! c)" if "0 < c" "c < n" "c \<noteq> j" for c
    using ob that unfolding ord_but_def pair_ok_def by simp
  have b: "pair_ok mn ?ks c" if c: "0 < c" "c < n" "c \<noteq> p" for c
  proof -
    consider (atJ) "c = j" | (belowJ) "c \<noteq> j" "(c - 1) div 2 = j"
      | (sib) "c \<noteq> j" "(c - 1) div 2 = p" | (other) "c \<noteq> j" "(c - 1) div 2 \<noteq> j" "(c - 1) div 2 \<noteq> p"
      by blast
    then show ?thesis
    proof cases
      case atJ
      with jp par show ?thesis by (simp add: pair_ok_def vp vj)
    next
      case belowJ
      with g j c par have "heap_le mn (ks ! p) (ks ! c)" unfolding grand_ok_def by simp
      with belowJ c show ?thesis by (simp add: pair_ok_def vj vo)
    next
      case sib
      from old[OF c(1,2) sib(1)] sib have "heap_le mn (ks ! p) (ks ! c)" by simp
      with jp have "heap_le mn (ks ! j) (ks ! c)" by (rule heap_le_trans)
      with sib c show ?thesis by (simp add: pair_ok_def vp vo)
    next
      case other
      from old[OF c(1,2) other(1)] other c show ?thesis by (simp add: pair_ok_def vo)
    qed
  qed
  have gr: "grand_ok mn ?ks 0 n p"
    unfolding grand_ok_def
  proof (intro impI allI)
    fix c assume a: "0 < p \<and> 0 \<le> (p - 1) div 2" and c: "0 < c \<and> c < n \<and> (c - 1) div 2 = p"
    from a pj have gp: "(p - 1) div 2 \<noteq> p" "(p - 1) div 2 \<noteq> j" by auto
    from a pj have kg: "heap_le mn (ks ! ((p - 1) div 2)) (ks ! p)"
      using old[of p] by simp
    show "heap_le mn (?ks ! ((p - 1) div 2)) (?ks ! c)"
    proof (cases "c = j")
      case True
      with kg gp show ?thesis by (simp add: vj vo)
    next
      case False
      from c a have "c \<noteq> p" by auto
      from old[of c] c False have "heap_le mn (ks ! p) (ks ! c)" by auto
      with kg have "heap_le mn (ks ! ((p - 1) div 2)) (ks ! c)" by (rule heap_le_trans)
      with gp False \<open>c \<noteq> p\<close> show ?thesis by (simp add: vo)
    qed
  qed
  from b gr show ?thesis unfolding ord_but_def by blast
qed

lemma ord_from_root:
  fixes ks :: "'a::linorder list"
  assumes "ord_from mn ks 0 n" "c < n"
  shows "heap_le mn (ks ! 0) (ks ! c)"
  using assms(2)
proof (induction c rule: less_induct)
  case (less c)
  show ?case
  proof (cases "c = 0")
    case True
    then show ?thesis by simp
  next
    case False
    with less.prems assms(1) have "pair_ok mn ks c" by (simp add: ord_from_def)
    moreover from False less.prems have "heap_le mn (ks ! 0) (ks ! ((c - 1) div 2))"
      by (intro less.IH) auto
    ultimately show ?thesis unfolding pair_ok_def by (blast intro: heap_le_trans)
  qed
qed

subsection \<open>Comparisons and the order of the ranks\<close>

lemma float_less_rank:
  "a \<noteq> NaN \<Longrightarrow> b \<noteq> NaN \<Longrightarrow>
   float_less a b = (rank (VFloat a) < rank (VFloat b))
   \<and> float_eq a b = (rank (VFloat a) = rank (VFloat b))"
  by (cases a; cases b) (simp_all add: less_prod_def)

lemma comparator_rank:
  assumes "comparator f" "f a a \<noteq> None" "f b b \<noteq> None" "a \<noteq> VFloat NaN" "b \<noteq> VFloat NaN"
  shows "f a b = Some (rank a < rank b) \<and> fval_eq a b = (rank a = rank b)"
  using assms unfolding comparator_def
  by (elim disjE; cases a; cases b) (simp_all add: less_prod_def float_less_rank)

lemma kept_key:
  assumes "kept h h'" "wellformed h"
  shows "mem h' a ! nat (keyFieldIndex h') = mem h a ! nat (keyFieldIndex h)"
    and "length (mem h' a) = length (mem h a)"
proof -
  from assms(1) have k: "keyFieldIndex h' = keyFieldIndex h"
    and f: "fields_kept (indexFieldIndex h) (mem h a) (mem h' a)"
    by (simp_all add: kept_def same_descriptor_def frame_def)
  from assms(2) have "rec_ok h (mem h a)" "0 \<le> keyFieldIndex h"
    "keyFieldIndex h \<noteq> indexFieldIndex h"
    by (simp_all add: wellformed_def)
  then have "nat (keyFieldIndex h) < length (mem h a)"
    "int (nat (keyFieldIndex h)) \<noteq> indexFieldIndex h"
    by (auto simp: rec_ok_def)
  with f k show "mem h' a ! nat (keyFieldIndex h') = mem h a ! nat (keyFieldIndex h)"
    by (simp add: fields_kept_def)
  from f show "length (mem h' a) = length (mem h a)" by (simp add: fields_kept_def)
qed

lemma kept_nan_free:
  assumes "kept h h'" "wellformed h" "nan_free h"
  shows "nan_free h'"
proof -
  from assms(1) have k: "keyFieldIndex h' = keyFieldIndex h"
    by (simp add: kept_def same_descriptor_def)
  have "Field h' (Some a) (keyFieldIndex h') = Field h (Some a) (keyFieldIndex h)" for a
    using kept_key[OF assms(1,2), of a] k by (simp add: Field_def)
  with assms(3) show ?thesis
    by (simp add: nan_free_def)
qed

lemma swaps_ordered: "swaps h h' \<Longrightarrow> ordered h \<Longrightarrow> ordered h'"
  using swaps_wellformed[of h h'] kept_nan_free[of h h'] swaps_facts[of h h']
  by (simp add: ordered_def)

lemma kept_ranks:
  assumes "kept h h'" "wellformed h" "s h' = s h"
  shows "ranks h' = ranks h"
  using kept_key(1)[OF assms(1,2)] assms(3) by (simp add: ranks_def)

lemma ranks_swap:
  assumes sw: "Swap h i j = Ok () h'" and wf: "wellformed h"
  shows "ranks h' = (ranks h)[nat i := ranks h ! nat j, nat j := ranks h ! nat i]"
proof -
  from Swap_Ok(1)[OF sw] have ni: "nat i < length (s h)" and nj: "nat j < length (s h)"
    by (auto simp: Len_def)
  have "ranks h' = map (\<lambda>p. rank (mem h (the p) ! nat (keyFieldIndex h))) (s h')"
    using kept_key(1)[OF Swap_kept_Ok[OF sw] wf] by (simp add: ranks_def)
  also have "\<dots> = (ranks h)[nat i := ranks h ! nat j, nat j := ranks h ! nat i]"
    using ni nj by (simp add: Swap_Ok(2)[OF sw] ranks_def map_update)
  finally show ?thesis .
qed

lemma length_ranks [simp]: "length (ranks h) = length (s h)"
  by (simp add: ranks_def)

lemma Less_rank:
  assumes o: "ordered h" and r: "0 \<le> i" "i < Len h" "0 \<le> j" "j < Len h"
  shows "Less h i j = Some ((ranks h ! nat i < ranks h ! nat j) = minHeap h)"
    and "key_eq h i j = (ranks h ! nat i = ranks h ! nat j)"
proof -
  from o have wf: "wellformed h" and nf: "nan_free h" by (simp_all add: ordered_def)
  from r have ni: "nat i < length (s h)" and nj: "nat j < length (s h)"
    by (auto simp: Len_def)
  from wf ni obtain a where a: "s h ! nat i = Some a"
    by (metis nth_mem wellformed_def not_None_eq)
  from wf nj obtain b where b: "s h ! nat j = Some b"
    by (metis nth_mem wellformed_def not_None_eq)
  define va where "va = mem h a ! nat (keyFieldIndex h)"
  define vb where "vb = mem h b ! nat (keyFieldIndex h)"
  from wf have ka: "Field h (Some a) (keyFieldIndex h) = Some va"
    and kb: "Field h (Some b) (keyFieldIndex h) = Some vb"
    by (auto simp: Field_def wellformed_def rec_ok_def va_def vb_def)
  from nf ka kb have nn: "va \<noteq> VFloat NaN" "vb \<noteq> VFloat NaN"
    by (auto simp: nan_free_def)
  from wf have c: "comparator (less_fn h)" "less_fn h va va \<noteq> None" "less_fn h vb vb \<noteq> None"
    by (auto simp: wellformed_def rec_ok_def va_def vb_def)
  note cr = comparator_rank[OF c nn]
  have ra: "ranks h ! nat i = rank va" and rb: "ranks h ! nat j = rank vb"
    using ni nj a b by (simp_all add: ranks_def va_def vb_def)
  from r a b ka kb cr show "Less h i j = Some ((ranks h ! nat i < ranks h ! nat j) = minHeap h)"
    by (simp add: Less_def Index_def ra rb)
  from r a b ka kb cr show "key_eq h i j = (ranks h ! nat i = ranks h ! nat j)"
    by (simp add: key_eq_def Index_def ra rb)
qed

lemma Less_range: "Less h i j = Some b \<Longrightarrow> 0 \<le> i \<and> i < Len h \<and> 0 \<le> j \<and> j < Len h"
  by (auto simp: Less_def Index_def split: option.splits if_splits)

lemma Less_heap_le:
  assumes "ordered h" "Less h i j = Some b"
  shows "b \<Longrightarrow> heap_le (minHeap h) (ranks h ! nat i) (ranks h ! nat j)"
    and "\<not> b \<Longrightarrow> heap_le (minHeap h) (ranks h ! nat j) (ranks h ! nat i)"
  using Less_rank(1)[OF assms(1), of i j] Less_range[OF assms(2)] assms(2)
  by (auto simp: heap_le_def)

lemma heap_invariant_ranks:
  assumes "ordered h"
  shows "heap_invariant h \<longleftrightarrow> ord_from (minHeap h) (ranks h) 0 (length (s h))"
proof -
  have "(Less h (int ((c - 1) div 2)) (int c) = Some True \<or> key_eq h (int ((c - 1) div 2)) (int c))
      = pair_ok (minHeap h) (ranks h) c" if "0 < c" "c < length (s h)" for c
  proof -
    from that have "0 \<le> int ((c - 1) div 2)" "int ((c - 1) div 2) < Len h" "0 \<le> int c"
      "int c < Len h" by (auto simp: Len_def)
    from Less_rank[OF assms this] show ?thesis
      by (auto simp: pair_ok_def heap_le_def)
  qed
  then show ?thesis
    by (auto simp: heap_invariant_def ord_from_def)
qed

subsection \<open>The sift loops restore the heap order\<close>

lemma parent_nat: "0 < j \<Longrightarrow> nat ((j - 1) sdiv 2) = (nat j - 1) div 2"
proof -
  assume "0 < j"
  then have "(j - 1) sdiv 2 = (j - 1) div 2" by (simp add: signed_divide_int_def sgn_if)
  moreover from \<open>0 < j\<close> have "nat ((j - 1) div 2) = (nat j - 1) div 2"
    by (simp add: nat_div_distrib nat_diff_distrib)
  ultimately show ?thesis by simp
qed

lemma parent_root: "0 \<le> j \<Longrightarrow> (j - 1) sdiv 2 = j \<longleftrightarrow> j = (0::int)"
  by (cases "j = 0") (auto simp: signed_divide_int_def sgn_if)

lemma better_child_facts:
  assumes o: "ordered h" and i: "0 \<le> i" and inner: "\<not> (n \<le> 2 * i + 1 \<or> 2 * i + 1 < 0)"
    and n: "n \<le> Len h" and bc: "better_child h i n = Some j"
  shows "nat j = 2 * nat i + 1 \<or> nat j = 2 * nat i + 2" and "0 \<le> j" and "j < n"
    and "\<And>c. c < nat n \<Longrightarrow> c = 2 * nat i + 1 \<or> c = 2 * nat i + 2 \<Longrightarrow>
          heap_le (minHeap h) (ranks h ! nat j) (ranks h ! c)"
proof -
  have l: "nat (2 * i + 1) = 2 * nat i + 1" "nat (2 * i + 1 + 1) = 2 * nat i + 2"
    using i by (simp_all add: nat_add_distrib nat_mult_distrib)
  show "nat j = 2 * nat i + 1 \<or> nat j = 2 * nat i + 2" "0 \<le> j" "j < n"
    using bc i inner l by (auto simp: better_child_def split: option.splits if_splits)
  show "heap_le (minHeap h) (ranks h ! nat j) (ranks h ! c)"
    if c: "c < nat n" "c = 2 * nat i + 1 \<or> c = 2 * nat i + 2" for c
  proof (cases "2 * i + 1 + 1 < n")
    case False
    with c i have "c = 2 * nat i + 1" by auto
    moreover from False bc have "j = 2 * i + 1" by (simp add: better_child_def)
    ultimately show ?thesis using l by simp
  next
    case True
    with bc obtain r where r: "Less h (2 * i + 1 + 1) (2 * i + 1) = Some r"
      and j: "j = (if r then 2 * i + 1 + 1 else 2 * i + 1)"
      by (auto simp: better_child_def split: option.splits)
    from Less_heap_le[OF o r] l c j show ?thesis
      by (cases r) auto
  qed
qed

lemma down_loop_ord:
  "ordered h \<Longrightarrow> ord_except (minHeap h) (ranks h) lo (nat n) (nat i) \<Longrightarrow> 0 \<le> i \<Longrightarrow>
   n \<le> Len h \<Longrightarrow> lo \<le> nat i \<Longrightarrow> down_loop h i n = Ok i' h' \<Longrightarrow>
   ord_but (minHeap h) (ranks h') lo (nat n) (nat i)
   \<and> ((i' \<noteq> i \<or> (0 < nat i \<and> lo \<le> (nat i - 1) div 2 \<longrightarrow> pair_ok (minHeap h) (ranks h) (nat i)))
        \<longrightarrow> ord_from (minHeap h) (ranks h') lo (nat n))
   \<and> i \<le> i' \<and> (i' = i \<longrightarrow> h' = h)"
proof (induction h i rule: down_loop_induct[where n=n])
  case (leaf h i)
  then have e: "i' = i" "h' = h" by simp_all
  have "ord_but (minHeap h) (ranks h) lo (nat n) (nat i)"
  proof (rule ord_except_but[OF leaf.prems(2)])
    fix c assume "0 < c" "c < nat n" "(c - 1) div 2 = nat i"
    with leaf(1) leaf.prems(3) have False by auto
    then show "heap_le (minHeap h) (ranks h ! nat i) (ranks h ! c)" ..
  qed
  with e show ?case by (auto intro: ord_but_from)
next
  case (child_panic h i)
  then show ?case by simp
next
  case (less_panic h i j)
  then show ?case by simp
next
  case (stop h i j)
  then have e: "i' = i" "h' = h" by simp_all
  note bf = better_child_facts[OF stop.prems(1) stop.prems(3) stop(1) stop.prems(4) stop(2)]
  from Less_heap_le(2)[OF stop.prems(1) stop(3)]
  have ij: "heap_le (minHeap h) (ranks h ! nat i) (ranks h ! nat j)" by simp
  have "ord_but (minHeap h) (ranks h) lo (nat n) (nat i)"
  proof (rule ord_except_but[OF stop.prems(2)])
    fix c assume c: "0 < c" "c < nat n" "(c - 1) div 2 = nat i"
    with child_cases[of c "nat i"] have "c = 2 * nat i + 1 \<or> c = 2 * nat i + 2" by blast
    from bf(4)[OF c(2) this] ij show "heap_le (minHeap h) (ranks h ! nat i) (ranks h ! c)"
      by (rule heap_le_trans[rotated])
  qed
  with e show ?case by (auto intro: ord_but_from)
next
  case (swap_panic h i j h1)
  then show ?case by simp
next
  case (swap h i j h1)
  note o = swap.prems(1)
  then have wf: "wellformed h" by (simp add: ordered_def)
  note bf = better_child_facts[OF o swap.prems(3) swap(1) swap.prems(4) swap(2)]
  note sw = swap(4)
  have o1: "ordered h1" using swaps_ordered[OF swaps_single[OF sw] o] .
  have mn: "minHeap h1 = minHeap h"
    using Swap_kept_Ok[OF sw] by (simp add: kept_def same_descriptor_def)
  have len: "Len h1 = Len h" using swaps_Len[OF swaps_single[OF sw]] .
  have r1: "ranks h1 = (ranks h)[nat i := ranks h ! nat j, nat j := ranks h ! nat i]"
    using ranks_swap[OF sw wf] .
  from Less_heap_le(1)[OF o swap(3)]
  have ji: "heap_le (minHeap h) (ranks h ! nat j) (ranks h ! nat i)" by simp
  have nl: "nat n \<le> length (ranks h)" using swap.prems(4) by (simp add: Len_def)
  have jn: "nat j < nat n" using bf(2,3) by simp
  from ord_except_swap_down[OF swap.prems(2) _ jn nl swap.prems(5) ji bf(4)] bf(1)
  have ex1: "ord_except (minHeap h1) (ranks h1) lo (nat n) (nat j)"
    and pj: "pair_ok (minHeap h1) (ranks h1) (nat j)"
    by (auto simp: r1 mn)
  from bf(1) swap.prems(5) have loj: "lo \<le> nat j" by auto
  from swap.prems(6) swap(5) have res: "down_loop h1 j n = Ok i' h'" by simp
  from swap.IH[OF o1 ex1 bf(2) _ loj res] len swap.prems(4) pj
  have "ord_from (minHeap h1) (ranks h') lo (nat n)" and "j \<le> i'" by auto
  moreover from bf(1) swap.prems(3) have "i < j" by auto
  ultimately show ?case by (auto simp: mn intro: ord_from_but)
qed

lemma up_ord:
  "ordered h \<Longrightarrow> ord_but (minHeap h) (ranks h) 0 (nat n) (nat j) \<Longrightarrow>
   grand_ok (minHeap h) (ranks h) 0 (nat n) (nat j) \<Longrightarrow> 0 \<le> j \<Longrightarrow> j < n \<Longrightarrow> n \<le> Len h \<Longrightarrow>
   up h j = Ok () h' \<Longrightarrow> ord_from (minHeap h) (ranks h') 0 (nat n)"
proof (induction h j rule: up_induct)
  case (root h j)
  with parent_root[of j] have "j = 0" "h' = h" by simp_all
  with root.prems(2) show ?case by (auto intro: ord_but_from)
next
  case (less_panic h j)
  then show ?case by simp
next
  case (stop h j)
  then have e: "h' = h" by simp
  from stop(1) stop.prems(4) parent_root[of j] have j: "0 < j" by auto
  from Less_heap_le(2)[OF stop.prems(1) stop(2)] parent_nat[OF j]
  have "pair_ok (minHeap h) (ranks h) (nat j)" by (simp add: pair_ok_def)
  with stop.prems(2) e show ?case by (auto intro: ord_but_from)
next
  case (swap_panic h j h1)
  then show ?case by simp
next
  case (swap h j h1)
  note o = swap.prems(1)
  then have wf: "wellformed h" by (simp add: ordered_def)
  from swap(1) swap.prems(4) parent_root[of j] have j: "0 < j" by auto
  define p where "p = (j - 1) sdiv 2"
  from parent_nat[OF j] have np: "nat p = (nat j - 1) div 2" by (simp add: p_def)
  from parent_range[of j] j have pr: "0 \<le> p" "p \<le> j" by (simp_all add: p_def)
  note sw = swap(3)[folded p_def]
  have o1: "ordered h1" using swaps_ordered[OF swaps_single[OF sw] o] .
  have mn: "minHeap h1 = minHeap h"
    using Swap_kept_Ok[OF sw] by (simp add: kept_def same_descriptor_def)
  have len: "Len h1 = Len h" using swaps_Len[OF swaps_single[OF sw]] .
  have r1: "ranks h1 = (ranks h)[nat p := ranks h ! nat j, nat j := ranks h ! nat p]"
    using ranks_swap[OF sw wf] .
  from Less_heap_le(1)[OF o swap(2)]
  have jp: "heap_le (minHeap h) (ranks h ! nat j) (ranks h ! nat p)" by (simp add: p_def)
  have nl: "nat n \<le> length (ranks h)" using swap.prems(6) by (simp add: Len_def)
  from j swap.prems(5) have jn: "0 < nat j" "nat j < nat n" by simp_all
  from ord_but_swap_up[OF swap.prems(2,3) jn nl np jp]
  have b1: "ord_but (minHeap h1) (ranks h1) 0 (nat n) (nat p)"
    and g1: "grand_ok (minHeap h1) (ranks h1) 0 (nat n) (nat p)"
    by (simp_all add: r1 mn)
  from swap.prems(7) swap(4) have res: "up h1 p = Ok () h'" by (simp add: p_def)
  from pr swap.prems(5) have pn: "p < n" by simp
  from swap.IH[folded p_def, OF o1 b1 g1 pr(1) pn _ res] len swap.prems(6)
  show ?case by (simp add: mn)
qed

subsection \<open>The driver keeps the heap invariant\<close>

lemma heap_ok_ranks:
  "heap_ok h \<longleftrightarrow> ordered h \<and> ord_from (minHeap h) (ranks h) 0 (length (s h))"
  using heap_invariant_ranks[of h] by (auto simp: heap_ok_def)

lemma kept_minHeap: "kept h h' \<Longrightarrow> minHeap h' = minHeap h"
  by (simp add: kept_def same_descriptor_def)

lemma swaps_minHeap: "swaps h h' \<Longrightarrow> minHeap h' = minHeap h"
  by (simp add: swaps_facts kept_minHeap)

lemma Push_ordered:
  assumes o: "ordered h" and p: "Push h (Iface t (Some a)) = Ok () h1"
  shows "ordered h1" and "s h1 = s h @ [Some a]" and "minHeap h1 = minHeap h"
    and "ranks h1 = ranks h @ [rank (mem h a ! nat (keyFieldIndex h))]"
proof -
  from o have wf: "wellformed h" by (simp add: ordered_def)
  from Push_returns[OF wf, of t a] p have wf1: "wellformed h1" and s1: "s h1 = s h @ [Some a]"
    by auto
  from Push_kept[of h "Iface t (Some a)"] p have k: "kept h h1" by simp
  from kept_nan_free[OF k wf] o wf1 show "ordered h1" by (simp add: ordered_def)
  show "s h1 = s h @ [Some a]" by fact
  show "minHeap h1 = minHeap h" using kept_minHeap[OF k] .
  from k have "keyFieldIndex h1 = keyFieldIndex h" by (simp add: kept_def same_descriptor_def)
  with kept_key(1)[OF k wf] s1
  show "ranks h1 = ranks h @ [rank (mem h a ! nat (keyFieldIndex h))]"
    by (simp add: ranks_def)
qed

lemma heap_Push_heap_ok:
  assumes ok: "heap_ok h" and p: "heap_Push h (Iface t (Some a)) = Ok () h'"
  shows "heap_ok h'"
proof -
  from ok have o: "ordered h" and hp: "ord_from (minHeap h) (ranks h) 0 (length (s h))"
    by (simp_all add: heap_ok_ranks)
  from p obtain h1 where p1: "Push h (Iface t (Some a)) = Ok () h1"
    and u: "up h1 (Len h1 - 1) = Ok () h'"
    by (auto simp: heap_Push_def split: outcome.splits)
  note f = Push_ordered[OF o p1]
  let ?n = "length (s h)"
  have len1: "Len h1 = int ?n + 1" by (simp add: Len_def f(2))
  have b: "ord_but (minHeap h1) (ranks h1) 0 (nat (Len h1)) (nat (Len h1 - 1))"
    using hp by (auto simp: ord_but_def ord_from_def pair_ok_def f(3,4) len1 nth_append)
  have g: "grand_ok (minHeap h1) (ranks h1) 0 (nat (Len h1)) (nat (Len h1 - 1))"
    by (auto simp: grand_ok_def len1)
  from up_ord[OF f(1) b g _ _ _ u] have "ord_from (minHeap h1) (ranks h') 0 (nat (Len h1))"
    by (simp add: len1)
  moreover note sw = up_swaps[OF u]
  moreover from swaps_Len[OF sw] have "length (s h') = nat (Len h1)" by (simp add: Len_def)
  ultimately show ?thesis
    using swaps_ordered[OF sw f(1)] swaps_minHeap[OF sw] by (simp add: heap_ok_ranks)
qed

lemma Pop_Ok:
  assumes "Pop h = Ok r h'"
  shows "(s h = [] \<and> h' = h \<and> r = Nil_iface)
    \<or> (s h \<noteq> [] \<and> h' = h\<lparr>s := take (length (s h) - 1) (s h)\<rparr>
        \<and> r = Iface (pt h) (s h ! (length (s h) - 1)))"
proof (cases "s h = []")
  case True
  with assms show ?thesis by (simp add: Pop_def Len_def)
next
  case False
  then have "nat (int (length (s h)) - 1) = length (s h) - 1" by simp
  with assms False show ?thesis by (simp add: Pop_def Len_def Let_def)
qed

lemma wellformed_take: "wellformed h \<Longrightarrow> wellformed (h\<lparr>s := take k (s h)\<rparr>)"
  by (auto simp: wellformed_def dest: in_set_takeD)

lemma nan_free_s_update [simp]: "nan_free (h\<lparr>s := sl\<rparr>) = nan_free h"
  by (simp add: nan_free_def)

lemma ranks_take [simp]: "ranks (h\<lparr>s := take k (s h)\<rparr>) = take k (ranks h)"
  by (simp add: ranks_def take_map)

lemma ord_from_take:
  "ord_from mn ks 0 n \<Longrightarrow> n \<le> length ks \<Longrightarrow> ord_from mn (take n ks) 0 n"
  by (auto simp: ord_from_def pair_ok_def)

lemma ord_from_mono: "ord_from mn ks lo n \<Longrightarrow> n' \<le> n \<Longrightarrow> ord_from mn ks lo n'"
  by (auto simp: ord_from_def)

lemma Pop_heap_ok:
  assumes p: "Pop h = Ok r h'" and o: "ordered h"
    and hp: "ord_from (minHeap h) (ranks h) 0 (length (s h) - 1)"
  shows "heap_ok h'"
proof -
  from Pop_Ok[OF p] show ?thesis
  proof (elim disjE conjE)
    assume "s h = []" "h' = h"
    with o hp show ?thesis by (simp add: heap_ok_ranks)
  next
    assume h': "h' = h\<lparr>s := take (length (s h) - 1) (s h)\<rparr>"
    from o have "ordered h'" by (simp add: h' ordered_def wellformed_take)
    moreover have "ord_from (minHeap h') (ranks h') 0 (length (s h'))"
      using ord_from_take[OF hp] by (simp add: h')
    ultimately show ?thesis by (simp add: heap_ok_ranks)
  qed
qed

lemma ord_except_swap_last:
  fixes ks :: "'a::linorder list"
  assumes hp: "ord_from mn ks 0 (Suc n)" and n: "n < length ks" and i: "i \<le> n"
  shows "ord_except mn (ks[i := ks ! n, n := ks ! i]) 0 n i"
proof -
  let ?ks = "ks[i := ks ! n, n := ks ! i]"
  have vo: "?ks ! k = ks ! k" if "k \<noteq> i" "k \<noteq> n" for k
    using that by simp
  have old: "heap_le mn (ks ! ((c - 1) div 2)) (ks ! c)" if "0 < c" "c \<le> n" for c
    using hp that unfolding ord_from_def pair_ok_def by simp
  have a: "pair_ok mn ?ks c" if c: "0 < c" "c < n" "c \<noteq> i" "(c - 1) div 2 \<noteq> i" for c
  proof -
    from c have "(c - 1) div 2 \<noteq> n" "c \<noteq> n" by auto
    with c old[of c] show ?thesis by (simp add: pair_ok_def vo)
  qed
  have g: "grand_ok mn ?ks 0 n i"
    unfolding grand_ok_def
  proof (intro impI allI)
    fix c assume p: "0 < i \<and> 0 \<le> (i - 1) div 2" and c: "0 < c \<and> c < n \<and> (c - 1) div 2 = i"
    from p i have ne: "(i - 1) div 2 \<noteq> i" "(i - 1) div 2 \<noteq> n" by auto
    from c have ne': "c \<noteq> i" "c \<noteq> n" by auto
    from old[of i] old[of c] p c i have "heap_le mn (ks ! ((i - 1) div 2)) (ks ! c)"
      by (auto intro: heap_le_trans)
    with ne ne' show "heap_le mn (?ks ! ((i - 1) div 2)) (?ks ! c)" by (simp add: vo)
  qed
  from a g show ?thesis unfolding ord_except_def by blast
qed

lemma down_Ok:
  "down h i n = Ok moved h' \<Longrightarrow> \<exists>i'. down_loop h i n = Ok i' h' \<and> moved = (i < i')"
  by (cases "down_loop h i n") (auto simp: down_def)

lemma Swap_last_ordered:
  assumes ok: "heap_ok h" and sw: "Swap h i (Len h - 1) = Ok () h1"
  shows "ordered h1" and "minHeap h1 = minHeap h" and "Len h1 = Len h"
    and "ord_except (minHeap h) (ranks h1) 0 (nat (Len h - 1)) (nat i)"
    and "0 \<le> i" and "i \<le> Len h - 1"
proof -
  from ok have o: "ordered h" and hp: "ord_from (minHeap h) (ranks h) 0 (length (s h))"
    by (simp_all add: heap_ok_ranks)
  then have wf: "wellformed h" by (simp add: ordered_def)
  note r = Swap_Ok(1)[OF sw]
  from r show "0 \<le> i" "i \<le> Len h - 1" by simp_all
  note sws = swaps_single[OF sw]
  show "ordered h1" using swaps_ordered[OF sws o] .
  show "minHeap h1 = minHeap h" using swaps_minHeap[OF sws] .
  show "Len h1 = Len h" using swaps_Len[OF sws] .
  let ?n = "nat (Len h - 1)"
  from r have n: "Suc ?n = length (s h)" "?n < length (ranks h)" "nat i \<le> ?n"
    by (auto simp: Len_def)
  from ord_except_swap_last[OF _ n(2,3)] hp n(1)
  show "ord_except (minHeap h) (ranks h1) 0 ?n (nat i)"
    by (simp add: ranks_swap[OF sw wf])
qed

lemma heap_Pop_heap_ok:
  assumes ok: "heap_ok h" and p: "heap_Pop h = Ok r h'"
  shows "heap_ok h'"
proof -
  let ?n = "Len h - 1"
  from p obtain h1 moved h2 where sw: "Swap h 0 ?n = Ok () h1"
    and d: "down h1 0 ?n = Ok moved h2" and pp: "Pop h2 = Ok r h'"
    by (auto simp: heap_Pop_def Let_def split: outcome.splits)
  note f = Swap_last_ordered[OF ok sw]
  from down_Ok[OF d] obtain i' where dl: "down_loop h1 0 ?n = Ok i' h2" by blast
  from down_loop_ord[OF f(1) _ _ _ _ dl, of 0] f(2,3,4)
  have hp2: "ord_from (minHeap h) (ranks h2) 0 (nat ?n)" by simp
  note sws = down_loop_swaps[OF dl]
  from swaps_Len[OF sws] f(3) have "length (s h2) - 1 = nat ?n" by (simp add: Len_def)
  with Pop_heap_ok[OF pp swaps_ordered[OF sws f(1)]] hp2 swaps_minHeap[OF sws] f(2)
  show ?thesis by simp
qed

lemma heap_Remove_heap_ok:
  assumes ok: "heap_ok h" and p: "heap_Remove h i = Ok r h'"
  shows "heap_ok h'"
proof (cases "Len h - 1 = i")
  case True
  from ok have o: "ordered h" and hp: "ord_from (minHeap h) (ranks h) 0 (length (s h))"
    by (simp_all add: heap_ok_ranks)
  from True p have "Pop h = Ok r h'" by (simp add: heap_Remove_def)
  from Pop_heap_ok[OF this o ord_from_mono[OF hp]] show ?thesis by simp
next
  case False
  let ?n = "Len h - 1"
  from False p obtain h1 moved h2 where sw: "Swap h i ?n = Ok () h1"
    and d: "down h1 i ?n = Ok moved h2"
    and rest: "(if \<not> moved then (case up h2 i of Panic h' \<Rightarrow> Panic h' | Ok u' h3 \<Rightarrow> Pop h3)
               else Pop h2) = Ok r h'"
    by (auto simp: heap_Remove_def Let_def split: outcome.splits)
  note f = Swap_last_ordered[OF ok sw]
  from down_Ok[OF d] obtain i' where dl: "down_loop h1 i ?n = Ok i' h2"
    and mv: "moved = (i < i')" by blast
  note dlo = down_loop_ord[OF f(1) _ f(5) _ _ dl, of 0]
  from dlo f(2,3,4) have b2: "ord_but (minHeap h) (ranks h2) 0 (nat ?n) (nat i)"
    and up2: "i' \<noteq> i \<Longrightarrow> ord_from (minHeap h) (ranks h2) 0 (nat ?n)"
    and same: "i' = i \<Longrightarrow> h2 = h1" and le: "i \<le> i'"
    by simp_all
  note sws = down_loop_swaps[OF dl]
  have o2: "ordered h2" using swaps_ordered[OF sws f(1)] .
  have m2: "minHeap h2 = minHeap h" using swaps_minHeap[OF sws] f(2) by simp
  have l2: "Len h2 = Len h" using swaps_Len[OF sws] f(3) by simp
  show ?thesis
  proof (cases moved)
    case True
    with rest have pp: "Pop h2 = Ok r h'" by simp
    from True mv have "i' \<noteq> i" by simp
    from l2 have "length (s h2) - 1 = nat ?n" by (simp add: Len_def)
    with up2[OF \<open>i' \<noteq> i\<close>] have "ord_from (minHeap h2) (ranks h2) 0 (length (s h2) - 1)"
      by (simp add: m2)
    from Pop_heap_ok[OF pp o2 this] show ?thesis .
  next
    case nm: False
    with rest obtain h3 where u: "up h2 i = Ok () h3" and pp: "Pop h3 = Ok r h'"
      by (auto split: outcome.splits)
    from nm mv le have e: "i' = i" by simp
    from same[OF e] have h21: "h2 = h1" .
    from f(4) have g: "grand_ok (minHeap h2) (ranks h2) 0 (nat ?n) (nat i)"
      by (simp add: ord_except_def h21 f(2))
    from f(6) False have ilt: "i < ?n" by simp
    from up_ord[OF o2 _ g f(5) ilt _ u] b2 l2
    have hp3: "ord_from (minHeap h2) (ranks h3) 0 (nat ?n)" by (simp add: m2)
    note sw3 = up_swaps[OF u]
    from swaps_Len[OF sw3] l2 have "length (s h3) - 1 = nat ?n" by (simp add: Len_def)
    with Pop_heap_ok[OF pp swaps_ordered[OF sw3 o2]] hp3 swaps_minHeap[OF sw3]
    show ?thesis by simp
  qed
qed

lemma init_loop_ord:
  "ordered h \<Longrightarrow> n = Len h \<Longrightarrow> - 1 \<le> i \<Longrightarrow>
   ord_from (minHeap h) (ranks h) (nat (i + 1)) (nat n) \<Longrightarrow> init_loop h i n = Ok () h' \<Longrightarrow>
   ord_from (minHeap h) (ranks h') 0 (nat n)"
proof (induction h i n rule: init_loop.induct)
  case (1 h i n)
  show ?case
  proof (cases "0 \<le> i")
    case False
    with "1.prems"(5) have "h' = h" by (subst (asm) init_loop.simps) simp
    moreover from False "1.prems"(3) have "i = - 1" by simp
    ultimately show ?thesis using "1.prems"(4) by simp
  next
    case True
    with "1.prems"(5) obtain moved h1 where d: "down h i n = Ok moved h1"
      and r: "init_loop h1 (i - 1) n = Ok () h'"
      by (subst (asm) init_loop.simps) (auto split: outcome.splits)
    from down_Ok[OF d] obtain i' where dl: "down_loop h i n = Ok i' h1" by blast
    have ni: "nat (i + 1) = Suc (nat i)" using True by simp
    have ex: "ord_except (minHeap h) (ranks h) (nat i) (nat n) (nat i)"
      using "1.prems"(4) unfolding ord_except_def grand_ok_def ord_from_def ni
      by (auto simp: Suc_le_eq le_less)
    from down_loop_ord[OF "1.prems"(1) ex True _ _ dl] "1.prems"(2)
    have hp1: "ord_from (minHeap h) (ranks h1) (nat i) (nat n)" by auto
    note sws = down_loop_swaps[OF dl]
    from True have "nat (i - 1 + 1) = nat i" by simp
    with "1.IH"[OF True d swaps_ordered[OF sws "1.prems"(1)] _ _ _ r] hp1
      swaps_Len[OF sws] swaps_minHeap[OF sws] "1.prems"(2) True
    show ?thesis by simp
  qed
qed

lemma heap_Init_heap_ok:
  assumes o: "ordered h" and i: "heap_Init h = Ok () h'"
  shows "heap_ok h'"
proof -
  let ?n = "Len h"
  from i have il: "init_loop h (?n sdiv 2 - 1) ?n = Ok () h'" by (simp add: heap_Init_def Let_def)
  have d: "?n sdiv 2 = ?n div 2" by (simp add: signed_divide_int_def sgn_if Len_def)
  have "ord_from (minHeap h) (ranks h) (nat (?n sdiv 2 - 1 + 1)) (nat ?n)"
    unfolding ord_from_def d by (auto simp: Len_def)
  from init_loop_ord[OF o refl _ this il] d
  have "ord_from (minHeap h) (ranks h') 0 (nat ?n)" by (simp add: Len_def)
  moreover note sws = init_loop_swaps[OF il]
  ultimately show ?thesis
    using swaps_ordered[OF sws o] swaps_minHeap[OF sws] swaps_Len[OF sws]
    by (simp add: heap_ok_ranks Len_def)
qed

subsection \<open>The descriptor that the constructor builds\<close>

lemma key_less_Some:
  assumes "key_less k = Some f"
  shows "comparator f" and "typed_value k v \<Longrightarrow> f v v \<noteq> None"
proof -
  from assms show "comparator f"
    by (auto simp: key_less_def comparator_def split: if_splits)
  assume tv: "typed_value k v"
  from assms consider (str) "k = String_k" "f = lessString"
    | (int) "kind_code Int_k \<le> kind_code k" "kind_code k \<le> kind_code Int64_k" "f = lessInt"
    | (uint) "kind_code Uint_k \<le> kind_code k" "kind_code k \<le> kind_code Uint64_k" "f = lessUint"
    | (float) "k = Float64_k \<or> k = Float32_k" "f = lessFloat"
    by (auto simp: key_less_def split: if_splits)
  then show "f v v \<noteq> None"
  proof cases
    case str
    with tv show ?thesis by (cases v) auto
  next
    case int
    with tv show ?thesis by (cases v) auto
  next
    case uint
    with tv show ?thesis by (cases v) auto
  next
    case float
    with tv show ?thesis by (cases v) auto
  qed
qed

lemma scan_field_descr:
  assumes "scan_field key sf (int (length pre)) t = Inr t'" "descr_ok key pre t"
  shows "descr_ok key (pre @ [sf]) t'"
proof -
  have old: "descr_ok key (pre @ [sf]) t"
    using assms(2) by (auto simp: descr_ok_def nth_append)
  consider (none) "Get (Tag sf) key = ''''" | (key) "is_key_tag key sf"
    | (index) "Get (Tag sf) key = ''index''"
    | (bad) "Get (Tag sf) key \<noteq> ''''" "\<not> is_key_tag key sf" "Get (Tag sf) key \<noteq> ''index''"
    by blast
  then show ?thesis
  proof cases
    case none
    with assms(1) old show ?thesis by (simp add: scan_field_def)
  next
    case key
    with assms(1) obtain f where f: "t' = t\<lparr>less_fn := f, keyFieldIndex := int (length pre),
        minHeap := (if Get (Tag sf) key = ''min'' then True else minHeap t)\<rparr>"
      and kl: "key_less (Type_Kind sf) = Some f"
      by (auto simp: scan_field_def is_key_tag_def Let_def split: if_splits option.splits)
    from key_less_Some[OF kl] key old show ?thesis
      by (auto simp: descr_ok_def nth_append f)
  next
    case index
    with assms(1) have "t' = t\<lparr>indexFieldIndex := int (length pre)\<rparr>" "Type_Kind sf = Int_k"
      by (auto simp: scan_field_def Let_def split: if_splits)
    with index old show ?thesis
      by (auto simp: descr_ok_def nth_append)
  next
    case bad
    with assms(1) show ?thesis by (simp add: scan_field_def is_key_tag_def)
  qed
qed

lemma scan_fields_descr:
  "scan_fields key sfs (int (length pre)) t = Inr t' \<Longrightarrow> descr_ok key pre t \<Longrightarrow>
   descr_ok key (pre @ sfs) t'"
proof (induction sfs arbitrary: pre t)
  case Nil
  then show ?case by simp
next
  case (Cons sf sfs)
  from Cons.prems(1) obtain t1 where t1: "scan_field key sf (int (length pre)) t = Inr t1"
    and r: "scan_fields key sfs (int (length pre) + 1) t1 = Inr t'"
    by (auto split: sum.splits)
  from scan_field_descr[OF t1 Cons.prems(2)] have "descr_ok key (pre @ [sf]) t1" .
  from Cons.IH[of "pre @ [sf]" t1, OF _ this] r show ?case by (simp add: ac_simps)
qed

lemma New_Inr:
  assumes "New key (Arg (slice_ptr sfs) (Some sl)) m = Inr r"
  obtains t where "scan_fields key sfs 0
      \<lparr>s = [], pt = PtrTo (StructOf sfs), minHeap = False, keyFieldIndex = - 1,
       indexFieldIndex = - 1, less_fn = (\<lambda>vi vj. None), swapTemp = None, mem = m\<rparr> = Inr t"
    and "0 \<le> keyFieldIndex t" and "r = heap_Init (t\<lparr>s := sl\<rparr>)"
  using assms
  by (auto simp: New_def newTagHeap_def slice_ptr_def split: sum.splits if_splits)

lemma typed_Int_is_VInt: "typed_value Int_k v \<Longrightarrow> is_VInt v"
  by (cases v) auto

lemma scanned_ordered:
  assumes tm: "typed_memory sfs m" and nn: "keys_not_nan key sfs m"
    and sl: "\<forall>p \<in> set sl. p \<noteq> None"
    and sc: "scan_fields key sfs 0
      \<lparr>s = [], pt = PtrTo (StructOf sfs), minHeap = False, keyFieldIndex = - 1,
       indexFieldIndex = - 1, less_fn = (\<lambda>vi vj. None), swapTemp = None, mem = m\<rparr> = Inr t"
    and k: "0 \<le> keyFieldIndex t"
  shows "ordered (t\<lparr>s := sl\<rparr>)"
proof -
  have "descr_ok key [] \<lparr>s = [], pt = PtrTo (StructOf sfs), minHeap = False,
       keyFieldIndex = - 1, indexFieldIndex = - 1, less_fn = (\<lambda>vi vj. None),
       swapTemp = None, mem = m\<rparr>"
    by (simp add: descr_ok_def)
  from scan_fields_descr[of key sfs "[]", simplified, OF sc this] have d: "descr_ok key sfs t" .
  from scan_fields_mem[OF sc] have m: "mem t = m" by simp
  define kx where "kx = nat (keyFieldIndex t)"
  from d k have kf: "kx < length sfs" "is_key_tag key (sfs ! kx)" "comparator (less_fn t)"
    and kv: "\<And>v. typed_value (Type_Kind (sfs ! kx)) v \<Longrightarrow> less_fn t v v \<noteq> None"
    by (simp_all add: descr_ok_def kx_def)
  have ne: "keyFieldIndex t \<noteq> indexFieldIndex t"
  proof
    assume e: "keyFieldIndex t = indexFieldIndex t"
    with d k have "Get (Tag (sfs ! kx)) key = ''index''" by (simp add: descr_ok_def kx_def)
    with kf(2) show False by (simp add: is_key_tag_def)
  qed
  have ro: "rec_ok t (m a)" for a
  proof -
    from tm have len: "length (m a) = length sfs"
      and tv: "\<And>f. f < length sfs \<Longrightarrow> typed_value (Type_Kind (sfs ! f)) (m a ! f)"
      by (simp_all add: typed_memory_def)
    have "0 \<le> indexFieldIndex t \<Longrightarrow>
      indexFieldIndex t < int (length (m a)) \<and> is_VInt (m a ! nat (indexFieldIndex t))"
    proof -
      assume x: "0 \<le> indexFieldIndex t"
      with d have xl: "nat (indexFieldIndex t) < length sfs"
        and xk: "Type_Kind (sfs ! nat (indexFieldIndex t)) = Int_k"
        by (simp_all add: descr_ok_def)
      from tv[OF xl] xk have "is_VInt (m a ! nat (indexFieldIndex t))"
        by (simp add: typed_Int_is_VInt)
      with xl x len show ?thesis by simp
    qed
    moreover from kf(1) k len have "keyFieldIndex t < int (length (m a))" by (simp add: kx_def)
    moreover from kv[OF tv[OF kf(1)]] have "less_fn t (m a ! kx) (m a ! kx) \<noteq> None" .
    ultimately show ?thesis by (simp add: rec_ok_def kx_def)
  qed
  with k ne kf(3) sl m have "wellformed (t\<lparr>s := sl\<rparr>)"
    by (simp add: wellformed_def)
  moreover have "nan_free (t\<lparr>s := sl\<rparr>)"
  proof -
    have "Field t (Some a) (keyFieldIndex t) \<noteq> Some (VFloat NaN)" for a
      using nn kf(1,2) by (auto simp: Field_def m keys_not_nan_def kx_def)
    then show ?thesis by (simp add: nan_free_def)
  qed
  ultimately show ?thesis by (simp add: ordered_def)
qed

lemma New_heap_ok:
  assumes "typed_memory sfs m" "keys_not_nan key sfs m" "\<forall>p \<in> set sl. p \<noteq> None"
    and "New key (Arg (slice_ptr sfs) (Some sl)) m = Inr (Ok () h0)"
  shows "heap_ok h0"
proof -
  from New_Inr[OF assms(4)] obtain t where sc: "scan_fields key sfs 0
      \<lparr>s = [], pt = PtrTo (StructOf sfs), minHeap = False, keyFieldIndex = - 1,
       indexFieldIndex = - 1, less_fn = (\<lambda>vi vj. None), swapTemp = None, mem = m\<rparr> = Inr t"
    and k: "0 \<le> keyFieldIndex t" and r: "Ok () h0 = heap_Init (t\<lparr>s := sl\<rparr>)"
    by blast
  from heap_Init_heap_ok[OF scanned_ordered[OF assms(1-3) sc k] r[symmetric]] show ?thesis .
qed

lemma New_returns:
  assumes "typed_memory sfs m" "keys_not_nan key sfs m" "\<forall>p \<in> set sl. p \<noteq> None"
  shows "(\<exists>e. New key (Arg (slice_ptr sfs) (Some sl)) m = Inl e)
    \<or> (\<exists>h0. New key (Arg (slice_ptr sfs) (Some sl)) m = Inr (Ok () h0))"
proof (cases "New key (Arg (slice_ptr sfs) (Some sl)) m")
  case (Inl e)
  then show ?thesis by simp
next
  case (Inr r)
  from New_Inr[OF Inr] obtain t where sc: "scan_fields key sfs 0
      \<lparr>s = [], pt = PtrTo (StructOf sfs), minHeap = False, keyFieldIndex = - 1,
       indexFieldIndex = - 1, less_fn = (\<lambda>vi vj. None), swapTemp = None, mem = m\<rparr> = Inr t"
    and k: "0 \<le> keyFieldIndex t" and r: "r = heap_Init (t\<lparr>s := sl\<rparr>)"
    by blast
  from scanned_ordered[OF assms sc k] have "wellformed (t\<lparr>s := sl\<rparr>)" by (simp add: ordered_def)
  from heap_Init_returns[OF this] Inr r show ?thesis by auto
qed

lemma TagHeap_Push_heap_ok:
  assumes "heap_ok h" "TagHeap_Push A h u = Ok () h'" "nonnil_push (OpPush u)"
  shows "heap_ok h'"
proof -
  from assms(2,3) obtain t a where "u = Iface t (Some a)"
    by (cases u) (auto simp: TagHeap_Push_def elim: nonnil_push.elims)
  with assms(2) have "heap_Push h (Iface t (Some a)) = Ok () h'"
    by (simp add: TagHeap_Push_def split: if_splits)
  from heap_Push_heap_ok[OF assms(1) this] show ?thesis .
qed

lemma TagHeap_Remove_heap_ok:
  assumes "heap_ok h" "TagHeap_Remove C h u = Ok r h'"
  shows "heap_ok h'"
proof -
  from assms(2) obtain i where "heap_Remove h i = Ok r h'"
    by (auto simp: TagHeap_Remove_def split: iface.splits if_splits option.splits fval.splits)
  from heap_Remove_heap_ok[OF assms(1) this] show ?thesis .
qed

lemma run_heap_ok:
  "heap_ok h \<Longrightarrow> \<forall>x \<in> set ops. nonnil_push x \<Longrightarrow> run A C ops h = Ok rs h' \<Longrightarrow> heap_ok h'"
proof (induction ops arbitrary: h rs)
  case Nil
  then show ?case by simp
next
  case (Cons x ops)
  show ?case
  proof (cases x)
    case (OpPush u)
    with Cons.prems obtain h1 where p: "TagHeap_Push A h u = Ok () h1"
      and r: "run A C ops h1 = Ok rs h'"
      by (auto split: outcome.splits)
    from Cons.prems(2) OpPush have "nonnil_push (OpPush u)" by simp
    from TagHeap_Push_heap_ok[OF Cons.prems(1) p this] Cons.IH[OF _ _ r] Cons.prems(2)
    show ?thesis by simp
  next
    case OpPop
    with Cons.prems obtain r1 rs1 h1 where p: "TagHeap_Pop h = Ok r1 h1"
      and r: "run A C ops h1 = Ok rs1 h'"
      by (auto split: outcome.splits)
    from heap_Pop_heap_ok[OF Cons.prems(1) p[unfolded TagHeap_Pop_def]] Cons.IH[OF _ _ r]
      Cons.prems(2)
    show ?thesis by simp
  next
    case (OpRemove u)
    with Cons.prems obtain r1 rs1 h1 where p: "TagHeap_Remove C h u = Ok r1 h1"
      and r: "run A C ops h1 = Ok rs1 h'"
      by (auto split: outcome.splits)
    from TagHeap_Remove_heap_ok[OF Cons.prems(1) p] Cons.IH[OF _ _ r] Cons.prems(2)
    show ?thesis by simp
  qed
qed

subsection \<open>Nil pointers in the slice\<close>

lemma Less_Some_nonnil:
  "Less h a b = Some x \<Longrightarrow> s h ! nat a \<noteq> None \<and> s h ! nat b \<noteq> None"
  by (auto simp: Less_def Index_def Field_def split: option.splits if_splits)

lemma down_loop_first:
  assumes "down_loop h i n = Ok i' h'" and "\<not> (n \<le> 2 * i + 1 \<or> 2 * i + 1 < 0)"
  shows "s h ! nat i \<noteq> None \<and> s h ! nat (2 * i + 1) \<noteq> None
    \<and> (2 * i + 1 + 1 < n \<longrightarrow> s h ! nat (2 * i + 1 + 1) \<noteq> None)"
proof -
  have "\<exists>j x. better_child h i n = Some j \<and> Less h j i = Some x"
    using assms by (cases rule: down_loop_cases[where h=h and i=i and n=n]) auto
  then obtain j x where b: "better_child h i n = Some j" and l: "Less h j i = Some x"
    by blast
  show ?thesis
  proof (cases "2 * i + 1 + 1 < n")
    case True
    with b obtain r where "Less h (2 * i + 1 + 1) (2 * i + 1) = Some r"
      by (auto simp: better_child_def split: option.splits)
    from Less_Some_nonnil[OF this] Less_Some_nonnil[OF l] show ?thesis by simp
  next
    case False
    with b have "j = 2 * i + 1" by (simp add: better_child_def)
    with Less_Some_nonnil[OF l] False show ?thesis by simp
  qed
qed

lemma down_loop_nonnil:
  "0 \<le> i \<Longrightarrow> down_loop h i n = Ok i' h' \<Longrightarrow>
   \<forall>k. 0 \<le> k \<and> k < n \<and> (k = i \<or> 2 * i + 1 \<le> k) \<longrightarrow> s h ! nat k \<noteq> None \<Longrightarrow>
   (\<forall>k. 0 \<le> k \<and> k < n \<and> (k = i \<or> 2 * i + 1 \<le> k) \<longrightarrow> s h' ! nat k \<noteq> None)
   \<and> (\<forall>k. 0 \<le> k \<and> k \<noteq> i \<and> k < 2 * i + 1 \<longrightarrow> s h' ! nat k = s h ! nat k)"
proof (induction h i rule: down_loop_induct[where n=n])
  case (swap h i j h1)
  from better_child_range[OF swap.hyps(2)] swap.hyps(1) swap.prems(1)
  have j: "0 \<le> j" "j < n" "j = 2 * i + 1 \<or> j = 2 * i + 2" by auto
  from swap.hyps(1) swap.prems(1) have i: "i < n" by simp
  note s1 = Swap_Ok(2)[OF swap.hyps(4)]
  from Swap_Ok(1)[OF swap.hyps(4)] have r: "nat i < length (s h)" "nat j < length (s h)"
    by (auto simp: Len_def)
  have at: "s h1 ! nat k = (if k = j then s h ! nat i else if k = i then s h ! nat j
      else s h ! nat k)" if "0 \<le> k" for k
    using that r j(1) swap.prems(1) by (auto simp: s1 nth_list_update)
  have pre: "\<forall>k. 0 \<le> k \<and> k < n \<and> (k = j \<or> 2 * j + 1 \<le> k) \<longrightarrow> s h1 ! nat k \<noteq> None"
  proof (intro allI impI)
    fix k assume k: "0 \<le> k \<and> k < n \<and> (k = j \<or> 2 * j + 1 \<le> k)"
    show "s h1 ! nat k \<noteq> None"
    proof (cases "k = j")
      case True
      with swap.prems(3) swap.prems(1) i k show ?thesis by (simp add: at)
    next
      case False
      with k j swap.prems(1) have "k \<noteq> i" "2 * i + 1 \<le> k" by auto
      with swap.prems(3) k False show ?thesis by (simp add: at)
    qed
  qed
  from swap.prems(2) swap.hyps(5) have "down_loop h1 j n = Ok i' h'" by simp
  from swap.IH[OF j(1) this pre]
  have a: "\<And>k. 0 \<le> k \<Longrightarrow> k < n \<Longrightarrow> k = j \<or> 2 * j + 1 \<le> k \<Longrightarrow> s h' ! nat k \<noteq> None"
    and b: "\<And>k. 0 \<le> k \<Longrightarrow> k \<noteq> j \<Longrightarrow> k < 2 * j + 1 \<Longrightarrow> s h' ! nat k = s h1 ! nat k"
    by blast+
  show ?case
  proof (intro conjI allI impI)
    fix k assume k: "0 \<le> k \<and> k < n \<and> (k = i \<or> 2 * i + 1 \<le> k)"
    show "s h' ! nat k \<noteq> None"
    proof (cases "k = j \<or> 2 * j + 1 \<le> k")
      case True
      with a[of k] k show ?thesis by simp
    next
      case False
      with b[of k] k have e: "s h' ! nat k = s h1 ! nat k" by simp
      show ?thesis
      proof (cases "k = i")
        case True
        from swap.prems(3) j have "s h ! nat j \<noteq> None" by auto
        with True j e k show ?thesis by (simp add: at)
      next
        case ni: False
        with False swap.prems(3) k e show ?thesis by (simp add: at)
      qed
    qed
  next
    fix k assume k: "0 \<le> k \<and> k \<noteq> i \<and> k < 2 * i + 1"
    with j have "k \<noteq> j" "k < 2 * j + 1" by auto
    with b[of k] k show "s h' ! nat k = s h ! nat k" by (simp add: at)
  qed
qed auto

lemma init_loop_nil:
  "0 \<le> i \<Longrightarrow> 2 * i + 1 < n \<Longrightarrow> \<exists>k. 0 \<le> k \<and> k < n \<and> s h ! nat k = None \<Longrightarrow>
   \<forall>k. 0 \<le> k \<and> k < n \<and> s h ! nat k = None \<longrightarrow> k \<le> 2 * i + 2 \<Longrightarrow>
   init_loop h i n \<noteq> Ok () h'"
proof (induction h i n rule: init_loop.induct)
  case (1 h i n)
  show ?case
  proof
    assume "init_loop h i n = Ok () h'"
    with "1.prems"(1) obtain moved h1 where d: "down h i n = Ok moved h1"
      and r: "init_loop h1 (i - 1) n = Ok () h'"
      by (subst (asm) init_loop.simps) (auto split: outcome.splits)
    from down_Ok[OF d] obtain i' where dl: "down_loop h i n = Ok i' h1" by blast
    from "1.prems"(1,2) have inner: "\<not> (n \<le> 2 * i + 1 \<or> 2 * i + 1 < 0)" by simp
    note f = down_loop_first[OF dl inner]
    have low: "k \<noteq> i \<and> k < 2 * i + 1" if "0 \<le> k" "k < n" "s h ! nat k = None" for k
    proof -
      from "1.prems"(4) that have "k \<le> 2 * i + 2" by blast
      moreover from f that have "k \<noteq> i" "k \<noteq> 2 * i + 1" "k \<noteq> 2 * i + 1 + 1" by auto
      ultimately show ?thesis by simp
    qed
    then have "\<forall>k. 0 \<le> k \<and> k < n \<and> (k = i \<or> 2 * i + 1 \<le> k) \<longrightarrow> s h ! nat k \<noteq> None"
      by fastforce
    from down_loop_nonnil[OF "1.prems"(1) dl this]
    have a: "\<And>k. 0 \<le> k \<Longrightarrow> k < n \<Longrightarrow> k = i \<or> 2 * i + 1 \<le> k \<Longrightarrow> s h1 ! nat k \<noteq> None"
      and b: "\<And>k. 0 \<le> k \<Longrightarrow> k \<noteq> i \<Longrightarrow> k < 2 * i + 1 \<Longrightarrow> s h1 ! nat k = s h ! nat k"
      by blast+
    from "1.prems"(3) obtain k where k: "0 \<le> k" "k < n" "s h ! nat k = None" by blast
    note lk = low[OF k]
    show False
    proof (cases "i = 0")
      case True
      with lk k(1) show False by simp
    next
      case False
      with "1.prems"(1) have i1: "0 \<le> i - 1" by simp
      from "1.prems"(2) have n1: "2 * (i - 1) + 1 < n" by simp
      from b[of k] k lk have "\<exists>k. 0 \<le> k \<and> k < n \<and> s h1 ! nat k = None" by auto
      moreover have "\<forall>k. 0 \<le> k \<and> k < n \<and> s h1 ! nat k = None \<longrightarrow> k \<le> 2 * (i - 1) + 2"
      proof (intro allI impI)
        fix c assume c: "0 \<le> c \<and> c < n \<and> s h1 ! nat c = None"
        with a[of c] have "\<not> (c = i \<or> 2 * i + 1 \<le> c)" by auto
        then show "c \<le> 2 * (i - 1) + 2" by simp
      qed
      ultimately have "init_loop h1 (i - 1) n \<noteq> Ok () h'"
        using "1.IH"[OF "1.prems"(1) d i1 n1] by blast
      with r show False by simp
    qed
  qed
qed

lemma heap_Init_nil:
  assumes "None \<in> set (s h)" and "2 \<le> length (s h)"
  shows "heap_Init h \<noteq> Ok () h'"
proof -
  let ?n = "Len h"
  from assms(2) have n: "2 \<le> ?n" by (simp add: Len_def)
  then have sd: "?n sdiv 2 = ?n div 2" by (simp add: signed_divide_int_def)
  from assms(1) obtain c where c: "c < length (s h)" "s h ! c = None"
    by (auto simp: in_set_conv_nth)
  then have "\<exists>k. 0 \<le> k \<and> k < ?n \<and> s h ! nat k = None"
    by (intro exI[of _ "int c"]) (simp add: Len_def)
  moreover have "\<forall>k. 0 \<le> k \<and> k < ?n \<and> s h ! nat k = None \<longrightarrow> k \<le> 2 * (?n div 2 - 1) + 2"
    by auto
  moreover from n have "0 \<le> ?n div 2 - 1" "2 * (?n div 2 - 1) + 1 < ?n" by auto
  ultimately have "init_loop h (?n div 2 - 1) ?n \<noteq> Ok () h'"
    by (rule init_loop_nil[rotated 2])
  then show ?thesis by (simp add: heap_Init_def Let_def sd)
qed

lemma ordered_cong:
  assumes "same_descriptor h h'" "mem h' = mem h" "s h' = s h"
  shows "ordered h' = ordered h"
  using assms
  by (simp add: ordered_def wellformed_def nan_free_def rec_ok_def Field_def
      same_descriptor_def)

lemma heap_ok_empty: "s h = [] \<Longrightarrow> heap_ok h = ordered h"
  by (simp add: heap_ok_def heap_invariant_def)

lemma Push_s: "Push h (Iface t np) = Ok () h1 \<Longrightarrow> s h1 = s h @ [np]"
  by (auto simp: Push_def dest!: SetInt_Some split: option.splits if_splits)

lemma up_last_nil:
  assumes "s h \<noteq> []" "last (s h) = None \<or> s h ! nat ((Len h - 1 - 1) sdiv 2) = None"
    "2 \<le> length (s h)"
  shows "up h (Len h - 1) \<noteq> Ok () h'"
proof
  assume u: "up h (Len h - 1) = Ok () h'"
  let ?j = "Len h - 1"
  from assms(3) have j: "1 \<le> ?j" by (simp add: Len_def)
  then have ne: "(?j - 1) sdiv 2 \<noteq> ?j" by (auto simp: signed_divide_int_def sgn_if)
  from assms(1) have "nat ?j = length (s h) - 1" by (simp add: Len_def)
  with assms(1) have l: "last (s h) = s h ! nat ?j" by (simp add: last_conv_nth)
  have "\<exists>x. Less h ?j ((?j - 1) sdiv 2) = Some x"
    using u ne by (cases rule: up_cases[where h=h and j="?j"]) auto
  then obtain x where "Less h ?j ((?j - 1) sdiv 2) = Some x" by blast
  from Less_Some_nonnil[OF this] assms(2) l show False by auto
qed

lemma TagHeap_Push_on_nil:
  assumes "s h = [None]"
  shows "TagHeap_Push A h u \<noteq> Ok () h'"
proof
  assume "TagHeap_Push A h u = Ok () h'"
  then obtain t np h1 where p: "Push h (Iface t np) = Ok () h1"
    and u: "up h1 (Len h1 - 1) = Ok () h'"
    by (auto simp: TagHeap_Push_def heap_Push_def split: iface.splits if_splits outcome.splits)
  from Push_s[OF p] assms have s1: "s h1 = [None, np]" by simp
  then have "s h1 ! nat ((Len h1 - 1 - 1) sdiv 2) = None"
    by (simp add: Len_def signed_divide_int_def)
  from up_last_nil[of h1 h'] this s1 u show False by simp
qed

lemma TagHeap_Push_nil:
  assumes ok: "heap_ok h" and p: "TagHeap_Push A h (Iface t None) = Ok () h'"
  shows "nil_only h'"
proof -
  from p obtain h1 where p1: "Push h (Iface t None) = Ok () h1"
    and u: "up h1 (Len h1 - 1) = Ok () h'"
    by (auto simp: TagHeap_Push_def heap_Push_def split: if_splits outcome.splits)
  from p1 have h1: "h1 = h\<lparr>s := s h @ [None]\<rparr>"
    by (auto simp: Push_def SetInt_def split: if_splits option.splits)
  show ?thesis
  proof (cases "s h = []")
    case True
    with h1 have "up h1 (Len h1 - 1) = Ok () h1"
      by (subst up.simps) (simp add: Len_def signed_divide_int_def)
    with u have "h' = h1" by simp
    moreover from True have e: "h\<lparr>s := []\<rparr> = h" by simp
    have "heap_ok (h\<lparr>s := []\<rparr>)" by (subst e) (rule ok)
    ultimately show ?thesis using True by (simp add: nil_only_def h1)
  next
    case False
    then have "2 \<le> length (s h1)" by (cases "s h") (simp_all add: h1)
    from up_last_nil[of h1 h', OF _ _ this] u show ?thesis by (simp add: h1)
  qed
qed

lemma nil_only_Remove:
  assumes n: "nil_only h" and p: "heap_Remove h i = Ok r h'"
  shows "heap_ok h'"
proof (cases "Len h - 1 = i")
  case True
  with p have "Pop h = Ok r h'" by (simp add: heap_Remove_def)
  with n show ?thesis by (auto simp: nil_only_def Pop_def Len_def Let_def)
next
  case False
  with p obtain h1 where "Swap h i (Len h - 1) = Ok () h1"
    by (auto simp: heap_Remove_def Let_def split: outcome.splits)
  from Swap_Ok(1)[OF this] n False show ?thesis by (simp add: nil_only_def Len_def)
qed

lemma nil_only_Pop:
  assumes n: "nil_only h" and p: "heap_Pop h = Ok r h'"
  shows "heap_ok h'"
proof -
  from n have sh: "s h = [None]" and l: "Len h - 1 = 0" by (simp_all add: nil_only_def Len_def)
  from p l obtain h1 moved h2 where sw: "Swap h 0 0 = Ok () h1"
    and d: "down h1 0 0 = Ok moved h2" and pp: "Pop h2 = Ok r h'"
    by (auto simp: heap_Pop_def Let_def split: outcome.splits)
  from Swap_Ok(4)[OF sw] sh have x: "indexFieldIndex h < 0" by fastforce
  from Swap_Ok(2)[OF sw] sh have s1: "s h1 = [None]" by simp
  from Swap_kept_Ok[OF sw] have sd: "same_descriptor h h1" by (simp add: kept_def)
  from d have "h2 = h1"
    by (subst (asm) down_def, subst (asm) down_loop.simps) (simp split: if_splits)
  with pp s1 have h': "h' = h1\<lparr>s := []\<rparr>" by (simp add: Pop_def Len_def Let_def)
  have "ordered (h1\<lparr>s := []\<rparr>) = ordered (h\<lparr>s := []\<rparr>)"
    using sd Swap_Ok(3)[OF sw x] by (intro ordered_cong) (simp_all add: same_descriptor_def)
  then have "heap_ok (h1\<lparr>s := []\<rparr>) = heap_ok (h\<lparr>s := []\<rparr>)"
    by (simp add: heap_ok_empty)
  with n h' show ?thesis by (simp add: nil_only_def)
qed

lemma run_reachable:
  "heap_ok h \<or> nil_only h \<Longrightarrow> run A C ops h = Ok rs h' \<Longrightarrow> heap_ok h' \<or> nil_only h'"
proof (induction ops arbitrary: h rs)
  case Nil
  then show ?case by simp
next
  case (Cons x ops)
  show ?case
  proof (cases x)
    case (OpPush u)
    with Cons.prems obtain h1 where p: "TagHeap_Push A h u = Ok () h1"
      and r: "run A C ops h1 = Ok rs h'"
      by (auto split: outcome.splits)
    from p TagHeap_Push_on_nil[of h A u h1] Cons.prems(1) have ok: "heap_ok h"
      by (auto simp: nil_only_def)
    have "heap_ok h1 \<or> nil_only h1"
    proof (cases "nonnil_push (OpPush u)")
      case True
      from TagHeap_Push_heap_ok[OF ok p True] show ?thesis by simp
    next
      case False
      then obtain t where "u = Iface t None" by (auto elim: nonnil_push.elims)
      with TagHeap_Push_nil[OF ok] p show ?thesis by simp
    qed
    from Cons.IH[OF this r] show ?thesis .
  next
    case OpPop
    with Cons.prems obtain r1 rs1 h1 where p: "heap_Pop h = Ok r1 h1"
      and r: "run A C ops h1 = Ok rs1 h'"
      by (auto simp: TagHeap_Pop_def split: outcome.splits)
    from Cons.prems(1) heap_Pop_heap_ok[OF _ p] nil_only_Pop[OF _ p] have "heap_ok h1" by blast
    with Cons.IH[OF _ r] show ?thesis by simp
  next
    case (OpRemove u)
    with Cons.prems obtain r1 rs1 h1 where p: "TagHeap_Remove C h u = Ok r1 h1"
      and r: "run A C ops h1 = Ok rs1 h'"
      by (auto split: outcome.splits)
    from p obtain i where p': "heap_Remove h i = Ok r1 h1"
      by (auto simp: TagHeap_Remove_def split: iface.splits if_splits option.splits fval.splits)
    from Cons.prems(1) heap_Remove_heap_ok[OF _ p'] nil_only_Remove[OF _ p']
    have "heap_ok h1" by blast
    with Cons.IH[OF _ r] show ?thesis by simp
  qed
qed

lemma New_reachable:
  assumes tm: "typed_memory sfs m" and nn: "keys_not_nan key sfs m"
    and n: "New key (Arg (slice_ptr sfs) (Some sl)) m = Inr (Ok () h0)"
  shows "heap_ok h0 \<or> nil_only h0"
proof (cases "None \<in> set sl")
  case False
  have "\<forall>p \<in> set sl. p \<noteq> None"
  proof (intro ballI notI)
    fix p assume "p \<in> set sl" "p = None"
    with False show False by simp
  qed
  from New_heap_ok[OF tm nn this n] show ?thesis by simp
next
  case True
  from New_Inr[OF n] obtain t where sc: "scan_fields key sfs 0
      \<lparr>s = [], pt = PtrTo (StructOf sfs), minHeap = False, keyFieldIndex = - 1,
       indexFieldIndex = - 1, less_fn = (\<lambda>vi vj. None), swapTemp = None, mem = m\<rparr> = Inr t"
    and k: "0 \<le> keyFieldIndex t" and r: "Ok () h0 = heap_Init (t\<lparr>s := sl\<rparr>)"
    by blast
  from heap_Init_nil[of "t\<lparr>s := sl\<rparr>" h0] True r have "\<not> 2 \<le> length sl" by auto
  then have "length sl \<le> 1" by simp
  with True have sl: "sl = [None]" by (cases sl) (auto simp: not_le)
  from r have h0: "h0 = t\<lparr>s := [None]\<rparr>"
    by (simp add: sl heap_Init_def Len_def init_loop.simps signed_divide_int_def)
  from scanned_ordered[OF tm nn _ sc k, of "[]"] have "ordered (t\<lparr>s := []\<rparr>)" by simp
  then have "heap_ok (t\<lparr>s := []\<rparr>)" by (simp add: heap_ok_def heap_invariant_def)
  then show ?thesis by (simp add: nil_only_def h0)
qed

lemma reachable_heap_invariant: "heap_ok h \<or> nil_only h \<Longrightarrow> heap_invariant h"
  by (auto simp: heap_ok_def nil_only_def heap_invariant_def)

subsection \<open>The heap invariant\<close>

lemma New_float: "New ''heap'' (Arg (slice_ptr float_struct) (Some [])) float_mem
    = Inr (Ok () float_empty)"
  by (simp add: New_def newTagHeap_def slice_ptr_def float_struct_def float_empty_def
      scan_field_def key_less_def heap_Init_def init_loop.simps Len_def signed_divide_int_def)

text \<open>
  Claim C1, as stated, fails on a key that is not a number. On the empty min-heap over a
  \<^verbatim>\<open>float64\<close> key, \<^verbatim>\<open>Push\<close> of the record with key NaN and then of the record with key 1
  both return and leave the slice as pushed: \<^verbatim>\<open>Less\<close> is false whenever one key is NaN, so
  the sift moves nothing. At offset 1 with parent 0, \<^verbatim>\<open>Less(0, 1)\<close> is false and the keys
  NaN and 1 are not equal.
\<close>

theorem nan_key_breaks_heap_invariant:
  "returns (run (=) (=) [OpPush (float_rec 0), OpPush (float_rec 1)] float_empty)
   \<and> s (final (run (=) (=) [OpPush (float_rec 0), OpPush (float_rec 1)] float_empty))
     = [Some 0, Some 1]
   \<and> float_mem 0 ! 0 = VFloat NaN \<and> float_mem 1 ! 0 = VFloat (Finite 1)
   \<and> \<not> heap_invariant
        (final (run (=) (=) [OpPush (float_rec 0), OpPush (float_rec 1)] float_empty))"
  by code_simp

text \<open>
  Claim C1, amended. Let the records in memory have the fields of the struct type and no
  key field hold NaN. Then the container that \<^verbatim>\<open>New\<close> builds, over empty or non-empty
  initial contents, satisfies the heap invariant, and so does the container after every
  sequence of \<^verbatim>\<open>Push\<close>, \<^verbatim>\<open>Pop\<close> and \<^verbatim>\<open>Remove\<close> calls that return: for every offset
  \<open>i \<ge> 1\<close> with parent \<open>p = (i - 1) div 2\<close>, \<^verbatim>\<open>Less(p, i)\<close> is true or the two keys are
  equal. (Every prefix of a returning sequence is a returning sequence, so this is the
  invariant after each call.)
\<close>

theorem heap_invariant_kept:
  assumes "typed_memory sfs m" and "keys_not_nan key sfs m"
    and "New key (Arg (slice_ptr sfs) (Some sl)) m = Inr (Ok () h0)"
    and "run A C ops h0 = Ok rs h"
  shows "heap_invariant h0 \<and> heap_invariant h"
proof -
  note r0 = New_reachable[OF assms(1-3)]
  from reachable_heap_invariant[OF r0] reachable_heap_invariant[OF run_reachable[OF r0 assms(4)]]
  show ?thesis by simp
qed

theorem heap_invariant_kept_witness:
  "typed_memory example_struct example_mem \<and> keys_not_nan ''heap'' example_struct example_mem
   \<and> (\<exists>h0 rs h.
        New ''heap'' (Arg (slice_ptr example_struct) (Some [Some 4, Some 2, Some 0])) example_mem
          = Inr (Ok () h0)
        \<and> s h0 = [Some 0, Some 2, Some 4]
        \<and> run (=) (=) [OpPush (example_rec 1), OpPush (example_rec 3),
             OpRemove (example_rec 3), OpPop] h0 = Ok rs h
        \<and> s h = [Some 0, Some 2, Some 4]
        \<and> heap_invariant h0 \<and> heap_invariant h)"
proof -
  have "case New ''heap'' (Arg (slice_ptr example_struct) (Some [Some 4, Some 2, Some 0]))
          example_mem of
      Inl e \<Rightarrow> False
    | Inr (Panic h0) \<Rightarrow> False
    | Inr (Ok u h0) \<Rightarrow> s h0 = [Some 0, Some 2, Some 4]
        \<and> (case run (=) (=) [OpPush (example_rec 1), OpPush (example_rec 3),
             OpRemove (example_rec 3), OpPop] h0 of
             Ok rs h \<Rightarrow> s h = [Some 0, Some 2, Some 4] | Panic h \<Rightarrow> False)"
    by code_simp
  then obtain h0 rs h where
    n: "New ''heap'' (Arg (slice_ptr example_struct) (Some [Some 4, Some 2, Some 0])) example_mem
          = Inr (Ok () h0)"
    and s0: "s h0 = [Some 0, Some 2, Some 4]"
    and r: "run (=) (=) [OpPush (example_rec 1), OpPush (example_rec 3),
             OpRemove (example_rec 3), OpPop] h0 = Ok rs h"
    and s1: "s h = [Some 0, Some 2, Some 4]"
    by (auto split: sum.splits outcome.splits)
  have tm: "typed_memory example_struct example_mem"
    by (auto simp: typed_memory_def example_struct_def example_mem_def less_Suc_eq)
  have kn: "keys_not_nan ''heap'' example_struct example_mem"
    by (auto simp: keys_not_nan_def example_struct_def example_mem_def less_Suc_eq)
  from heap_invariant_kept[OF tm kn n r] n s0 r s1 tm kn show ?thesis
    by simp
qed

subsection \<open>Pop returns the root\<close>

lemma down_loop_above:
  "0 \<le> i \<Longrightarrow> down_loop h i n = Ok i' h' \<Longrightarrow> nat n \<le> k \<Longrightarrow> s h' ! k = s h ! k"
proof (induction h i rule: down_loop_induct[where n=n])
  case (swap h i j h1)
  from better_child_range[OF swap.hyps(2)] swap.hyps(1) swap.prems(1)
  have j: "0 \<le> j" "j < n" by auto
  from swap.hyps(1) swap.prems(1) have i: "i < n" by simp
  from j i swap.prems(1,3) have "nat i \<noteq> k" "nat j \<noteq> k" by auto
  then have "s h1 ! k = s h ! k" by (simp add: Swap_Ok(2)[OF swap.hyps(4)])
  moreover from swap.IH[OF j(1) _ swap.prems(3)] swap.prems(2) swap.hyps(5)
  have "s h' ! k = s h1 ! k" by simp
  ultimately show ?case by simp
qed auto

lemma heap_Pop_root:
  assumes ok: "heap_ok h" and ne: "s h \<noteq> []"
  shows "\<exists>h'. heap_Pop h = Ok (Iface (pt h) (s h ! 0)) h' \<and> heap_ok h' \<and> kept h h'
    \<and> mset (s h) = add_mset (s h ! 0) (mset (s h'))"
proof -
  let ?n = "Len h - 1"
  from ok have wf: "wellformed h" by (simp add: heap_ok_def ordered_def)
  from ne have r: "0 \<le> ?n" "?n < Len h" "0 < Len h" by (simp_all add: Len_def)
  from Swap_returns[OF wf _ r(3) r(1,2)] obtain h1 where sw: "Swap h 0 ?n = Ok () h1" by auto
  note sws1 = swaps_single[OF sw]
  have wf1: "wellformed h1" using swaps_wellformed[OF sws1 wf] .
  have l1: "Len h1 = Len h" using swaps_Len[OF sws1] .
  from down_returns[OF wf1, of 0 ?n] l1 obtain moved h2 where d: "down h1 0 ?n = Ok moved h2"
    by auto
  from down_Ok[OF d] obtain i' where dl: "down_loop h1 0 ?n = Ok i' h2" by blast
  note sws2 = down_loop_swaps[OF dl]
  have l2: "length (s h2) = length (s h)"
    using swaps_facts[OF sws2] swaps_facts[OF sws1] by simp
  with ne have ne2: "s h2 \<noteq> []" by auto
  from r have nn: "nat ?n = length (s h) - 1" by (simp add: Len_def)
  have last2: "s h2 ! (length (s h) - 1) = s h ! 0"
  proof -
    from down_loop_above[OF _ dl, of "nat ?n"] have "s h2 ! nat ?n = s h1 ! nat ?n" by simp
    also from ne have "\<dots> = s h ! 0" by (simp add: Swap_Ok(2)[OF sw] nn)
    finally show ?thesis by (simp add: nn)
  qed
  define h' where "h' = h2\<lparr>s := take (length (s h2) - 1) (s h2)\<rparr>"
  from ne2 have pp: "Pop h2 = Ok (Iface (pt h2) (s h2 ! (length (s h2) - 1))) h'"
  proof -
    from ne2 have "nat (int (length (s h2)) - 1) = length (s h2) - 1" by simp
    with ne2 show ?thesis by (simp add: Pop_def Len_def Let_def h'_def)
  qed
  have k2: "kept h h2" using swaps_facts[OF sws1] swaps_facts[OF sws2] by (auto intro: kept_trans)
  then have pt2: "pt h2 = pt h" by (simp add: kept_def same_descriptor_def)
  from pp sw d last2 have hp: "heap_Pop h = Ok (Iface (pt h) (s h ! 0)) h'"
    by (simp add: heap_Pop_def Let_def pt2 l2)
  have k': "kept h h'" using k2 by (simp add: kept_def same_descriptor_def h'_def)
  have "s h2 = take (length (s h2) - 1) (s h2) @ [s h2 ! (length (s h2) - 1)]"
    using ne2 by (metis append_butlast_last_id butlast_conv_take last_conv_nth)
  then have "mset (s h2) = add_mset (s h ! 0) (mset (s h'))"
    by (metis h'_def l2 last2 mset.simps(2) mset_append union_mset_add_mset_right
        add.right_neutral mset.simps(1) select_convs(1) surjective update_convs(1))
  moreover have "mset (s h2) = mset (s h)"
    using swaps_facts[OF sws1] swaps_facts[OF sws2] by simp
  ultimately have "mset (s h) = add_mset (s h ! 0) (mset (s h'))" by simp
  with hp heap_Pop_heap_ok[OF ok hp] k' show ?thesis by blast
qed

subsection \<open>Pushes, then as many pops\<close>

lemma run_append:
  "run A C (xs @ ys) h =
     (case run A C xs h of
        Panic h' \<Rightarrow> Panic h'
      | Ok rs h1 \<Rightarrow>
          (case run A C ys h1 of Panic h' \<Rightarrow> Panic h' | Ok rs' h2 \<Rightarrow> Ok (rs @ rs') h2))"
proof (induction xs arbitrary: h)
  case Nil
  show ?case by (simp split: outcome.splits)
next
  case (Cons x xs)
  then show ?case by (cases x) (simp_all split: outcome.splits)
qed

lemma pushable_kept: "kept h h' \<Longrightarrow> pushable A h' u = pushable A h u"
  by (cases "(A, h, u)" rule: pushable.cases) (simp_all add: kept_def same_descriptor_def)

lemma heap_Push_length:
  assumes "ordered h" "heap_Push h (Iface t (Some a)) = Ok () h'"
  shows "length (s h') = Suc (length (s h))"
proof -
  from assms(2) obtain h1 where p1: "Push h (Iface t (Some a)) = Ok () h1"
    and u: "up h1 (Len h1 - 1) = Ok () h'"
    by (auto simp: heap_Push_def split: outcome.splits)
  from swaps_facts[OF up_swaps[OF u]] Push_ordered(2)[OF assms(1) p1] show ?thesis by simp
qed

lemma pushes_return:
  "heap_ok h \<Longrightarrow> \<forall>u \<in> set us. pushable A h u \<Longrightarrow>
   \<exists>h'. run A C (map OpPush us) h = Ok [] h' \<and> heap_ok h' \<and> kept h h'
     \<and> length (s h') = length (s h) + length us"
proof (induction us arbitrary: h)
  case Nil
  then show ?case by simp
next
  case (Cons u us)
  from Cons.prems(2) obtain t a where u: "u = Iface t (Some a)" and a: "A t (pt h)"
    by (cases "(A, h, u)" rule: pushable.cases) auto
  from Cons.prems(1) have o: "ordered h" by (simp add: heap_ok_def)
  then have wf: "wellformed h" by (simp add: ordered_def)
  from heap_Push_returns[OF wf, of t a] obtain h1 where
    p: "heap_Push h (Iface t (Some a)) = Ok () h1" by blast
  have k1: "kept h h1" using heap_Push_kept[of h "Iface t (Some a)"] p by simp
  from Cons.prems(2) pushable_kept[OF k1, of A] have "\<forall>u \<in> set us. pushable A h1 u" by simp
  from Cons.IH[OF heap_Push_heap_ok[OF Cons.prems(1) p] this] obtain h' where
    r: "run A C (map OpPush us) h1 = Ok [] h'" and ok': "heap_ok h'" and k': "kept h1 h'"
    and l: "length (s h') = length (s h1) + length us" by blast
  from p r u a have "run A C (map OpPush (u # us)) h = Ok [] h'"
    by (simp add: TagHeap_Push_def)
  with ok' kept_trans[OF k1 k'] l heap_Push_length[OF o p] show ?case by simp
qed

lemma ranks_kept_s:
  assumes "kept h h'" "wellformed h"
  shows "ranks (h'\<lparr>s := ps\<rparr>) = ranks (h\<lparr>s := ps\<rparr>)"
  using kept_key(1)[OF assms] by (simp add: ranks_def)

lemma pops_return:
  "heap_ok h \<Longrightarrow> N \<le> length (s h) \<Longrightarrow>
   \<exists>ps h'. run A C (replicate N OpPop) h = Ok (map (Iface (pt h)) ps) h' \<and> length ps = N
     \<and> heap_ok h' \<and> kept h h' \<and> mset (s h) = mset ps + mset (s h')
     \<and> sorted_wrt (heap_le (minHeap h)) (ranks (h\<lparr>s := ps\<rparr>))"
proof (induction N arbitrary: h)
  case 0
  then show ?case by (simp add: ranks_def)
next
  case (Suc N)
  from Suc.prems(2) have ne: "s h \<noteq> []" by auto
  from Suc.prems(1) have wf: "wellformed h"
    and hp: "ord_from (minHeap h) (ranks h) 0 (length (s h))"
    by (simp_all add: heap_ok_ranks ordered_def)
  from heap_Pop_root[OF Suc.prems(1) ne] obtain h1 where
    p: "heap_Pop h = Ok (Iface (pt h) (s h ! 0)) h1" and ok1: "heap_ok h1" and k1: "kept h h1"
    and m1: "mset (s h) = add_mset (s h ! 0) (mset (s h1))" by blast
  from m1 have "length (s h) = Suc (length (s h1))" by (metis size_mset size_add_mset)
  with Suc.prems(2) have "N \<le> length (s h1)" by simp
  from Suc.IH[OF ok1 this] obtain ps h' where
    r: "run A C (replicate N OpPop) h1 = Ok (map (Iface (pt h1)) ps) h'" and l: "length ps = N"
    and ok': "heap_ok h'" and k': "kept h1 h'" and m': "mset (s h1) = mset ps + mset (s h')"
    and so: "sorted_wrt (heap_le (minHeap h1)) (ranks (h1\<lparr>s := ps\<rparr>))" by blast
  from k1 have d: "pt h1 = pt h" "minHeap h1 = minHeap h"
    by (simp_all add: kept_def same_descriptor_def)
  from p r have run: "run A C (replicate (Suc N) OpPop) h
      = Ok (map (Iface (pt h)) (s h ! 0 # ps)) h'"
    by (simp add: TagHeap_Pop_def d)
  have m: "mset (s h) = mset (s h ! 0 # ps) + mset (s h')" using m1 m' by simp
  let ?rk = "\<lambda>p. rank (mem h (the p) ! nat (keyFieldIndex h))"
  have root: "heap_le (minHeap h) (?rk (s h ! 0)) (?rk q)" if "q \<in> set ps" for q
  proof -
    from that m have "q \<in># mset (s h)" by simp
    then have "q \<in> set (s h)" by simp
    then obtain c where c: "c < length (s h)" "s h ! c = q" by (auto simp: in_set_conv_nth)
    from ord_from_root[OF hp c(1)] c ne show ?thesis by (simp add: ranks_def)
  qed
  from so ranks_kept_s[OF k1 wf, of ps] d
  have "sorted_wrt (heap_le (minHeap h)) (ranks (h\<lparr>s := ps\<rparr>))" by simp
  with root have "sorted_wrt (heap_le (minHeap h)) (ranks (h\<lparr>s := s h ! 0 # ps\<rparr>))"
    by (simp add: ranks_def)
  moreover from l have "length (s h ! 0 # ps) = Suc N" by simp
  ultimately show ?case using run ok' kept_trans[OF k1 k'] m by blast
qed

lemma key_before_rank:
  assumes "comparator (less_fn h)" "less_fn h a a \<noteq> None" "less_fn h b b \<noteq> None"
    "a \<noteq> VFloat NaN" "b \<noteq> VFloat NaN"
  shows "key_before h a b = heap_le (minHeap h) (rank a) (rank b)"
proof -
  from comparator_rank[OF assms] have ab: "less_fn h a b = Some (rank a < rank b)"
    and eq: "fval_eq a b = (rank a = rank b)" by simp_all
  from comparator_rank[OF assms(1,3,2,5,4)] have ba: "less_fn h b a = Some (rank b < rank a)"
    by simp
  have le: "(x < y \<or> x = y) = (x \<le> y)" "(y < x \<or> x = y) = (y \<le> x)"
    for x y :: "string \<times> int \<times> real"
    by (rule iffI, erule disjE, erule less_imp_le, simp, simp add: le_less,
        rule iffI, erule disjE, erule less_imp_le, simp, simp add: le_less eq_commute)
  show ?thesis unfolding key_before_def heap_le_def ab ba eq
    by (cases "minHeap h") (simp_all add: le)
qed

lemma sorted_ranks_pop_sorted:
  assumes o: "ordered h" and nn: "\<forall>p \<in> set ps. p \<noteq> None"
    and so: "sorted_wrt (heap_le (minHeap h)) (ranks (h\<lparr>s := ps\<rparr>))"
  shows "pop_sorted h (map (Iface t) ps)"
proof -
  from o have wf: "wellformed h" and nf: "nan_free h" by (simp_all add: ordered_def)
  let ?k = "nat (keyFieldIndex h)"
  have key: "popped_key h (Iface t (Some a)) = Some (mem h a ! ?k)"
    and nan: "mem h a ! ?k \<noteq> VFloat NaN"
    and cmp: "less_fn h (mem h a ! ?k) (mem h a ! ?k) \<noteq> None" for a
  proof -
    from wf have "rec_ok h (mem h a)" "0 \<le> keyFieldIndex h" by (simp_all add: wellformed_def)
    then have f: "Field h (Some a) (keyFieldIndex h) = Some (mem h a ! ?k)"
      and "less_fn h (mem h a ! ?k) (mem h a ! ?k) \<noteq> None"
      by (simp_all add: rec_ok_def Field_def)
    then show "less_fn h (mem h a ! ?k) (mem h a ! ?k) \<noteq> None" by simp
    from f show "popped_key h (Iface t (Some a)) = Some (mem h a ! ?k)"
      by (simp add: popped_key_def)
    from f nf show "mem h a ! ?k \<noteq> VFloat NaN" by (auto simp: nan_free_def)
  qed
  from wf have c: "comparator (less_fn h)" by (simp add: wellformed_def)
  from so have "sorted_wrt (\<lambda>p q. heap_le (minHeap h) (rank (mem h (the p) ! ?k))
      (rank (mem h (the q) ! ?k))) ps"
    by (simp add: ranks_def sorted_wrt_map)
  then have "sorted_wrt (\<lambda>p q. case popped_key h (Iface t p) of
                 None \<Rightarrow> False
               | Some a \<Rightarrow> (case popped_key h (Iface t q) of
                    None \<Rightarrow> False | Some b \<Rightarrow> key_before h a b)) ps"
  proof (rule sorted_wrt_mono_rel[rotated])
    fix p q assume "p \<in> set ps" "q \<in> set ps"
      and le: "heap_le (minHeap h) (rank (mem h (the p) ! ?k)) (rank (mem h (the q) ! ?k))"
    with nn have "p \<noteq> None" "q \<noteq> None" by simp_all
    then obtain a b where "p = Some a" "q = Some b" by auto
    with le key_before_rank[OF c cmp[of a] cmp[of b] nan[of a] nan[of b]]
    show "case popped_key h (Iface t p) of
                 None \<Rightarrow> False
               | Some a \<Rightarrow> (case popped_key h (Iface t q) of
                    None \<Rightarrow> False | Some b \<Rightarrow> key_before h a b)"
      by (simp add: key)
  qed
  then show ?thesis by (simp add: pop_sorted_def sorted_wrt_map)
qed

text \<open>
  Claim C2, as stated, fails on a key that is not a number. On the empty min-heap over a
  \<^verbatim>\<open>float64\<close> key, after \<^verbatim>\<open>Push\<close> of the records with the keys 2, NaN, 3 and 1, the four
  calls of \<^verbatim>\<open>Pop\<close> return the records with the keys 2, 1, 3 and NaN, in that order: 2
  comes before 1.
\<close>

theorem nan_key_breaks_pop_order:
  "value_of (run (=) (=) float_ops float_empty)
     = Some [float_rec 2, float_rec 1, float_rec 3, float_rec 0]
   \<and> popped_key (final (run (=) (=) float_ops float_empty)) (float_rec 2)
     = Some (VFloat (Finite 2))
   \<and> popped_key (final (run (=) (=) float_ops float_empty)) (float_rec 1)
     = Some (VFloat (Finite 1))
   \<and> \<not> pop_sorted (final (run (=) (=) float_ops float_empty))
        [float_rec 2, float_rec 1, float_rec 3, float_rec 0]"
  by code_simp

text \<open>
  Claim C2, amended. Let the records in memory have the fields of the struct type, no key
  field holding NaN, and let the initial slice hold no nil pointer. On the container that
  \<^verbatim>\<open>New\<close> builds, \<open>N\<close> calls of \<^verbatim>\<open>Push\<close>, each with a non-nil pointer of an assignable type,
  followed by \<open>N\<close> calls of \<^verbatim>\<open>Pop\<close> all return, and the \<open>N\<close> popped records are sorted by
  key in the configured direction: each key is \<^verbatim>\<open><=\<close> every later one on a min-heap,
  \<^verbatim>\<open>>=\<close> on a max-heap.
\<close>

theorem pops_sorted:
  assumes "typed_memory sfs m" and "keys_not_nan key sfs m" and "\<forall>p \<in> set sl. p \<noteq> None"
    and "New key (Arg (slice_ptr sfs) (Some sl)) m = Inr (Ok () h0)"
    and "\<forall>u \<in> set us. pushable A h0 u"
  shows "\<exists>rs h. run A C (map OpPush us @ replicate (length us) OpPop) h0 = Ok rs h
    \<and> length rs = length us \<and> pop_sorted h rs"
proof -
  from New_heap_ok[OF assms(1-4)] have ok: "heap_ok h0" .
  from pushes_return[OF ok assms(5)] obtain h1 where
    r1: "run A C (map OpPush us) h0 = Ok [] h1" and ok1: "heap_ok h1"
    and l1: "length (s h1) = length (s h0) + length us" by blast
  from ok1 have wf1: "wellformed h1" by (simp add: heap_ok_def ordered_def)
  from l1 have "length us \<le> length (s h1)" by simp
  from pops_return[OF ok1 this] obtain ps h where
    r2: "run A C (replicate (length us) OpPop) h1 = Ok (map (Iface (pt h1)) ps) h"
    and l: "length ps = length us" and ok': "heap_ok h" and k: "kept h1 h"
    and m: "mset (s h1) = mset ps + mset (s h)"
    and so: "sorted_wrt (heap_le (minHeap h1)) (ranks (h1\<lparr>s := ps\<rparr>))" by blast
  have nn: "\<forall>p \<in> set ps. p \<noteq> None"
  proof
    fix p assume "p \<in> set ps"
    with m have "p \<in># mset (s h1)" by simp
    with wf1 show "p \<noteq> None" by (simp add: wellformed_def)
  qed
  from so ranks_kept_s[OF k wf1, of ps] kept_minHeap[OF k]
  have "sorted_wrt (heap_le (minHeap h)) (ranks (h\<lparr>s := ps\<rparr>))" by simp
  from sorted_ranks_pop_sorted[OF _ nn this] ok'
  have "pop_sorted h (map (Iface (pt h1)) ps)" by (simp add: heap_ok_def)
  with r1 r2 l show ?thesis by (simp add: run_append)
qed

theorem pops_sorted_witness:
  "typed_memory test_struct (\<lambda>a. [VString ''a'', VInt (int a)])
   \<and> keys_not_nan ''pq'' test_struct (\<lambda>a. [VString ''a'', VInt (int a)])
   \<and> (\<exists>h0 rs h.
        New ''pq'' (Arg (slice_ptr test_struct) (Some [Some 3, Some 1]))
          (\<lambda>a. [VString ''a'', VInt (int a)]) = Inr (Ok () h0)
        \<and> run (=) (=)
            (map OpPush [Iface (PtrTo (StructOf test_struct)) (Some 4),
                         Iface (PtrTo (StructOf test_struct)) (Some 2)]
             @ replicate (length [Iface (PtrTo (StructOf test_struct)) (Some 4),
                                  Iface (PtrTo (StructOf test_struct)) (Some 2)]) OpPop) h0
          = Ok rs h
        \<and> rs = [Iface (PtrTo (StructOf test_struct)) (Some 4),
                Iface (PtrTo (StructOf test_struct)) (Some 3)]
        \<and> pop_sorted h rs)"
proof -
  let ?m = "\<lambda>a::nat. [VString ''a'', VInt (int a)]"
  let ?us = "[Iface (PtrTo (StructOf test_struct)) (Some 4),
              Iface (PtrTo (StructOf test_struct)) (Some 2)]"
  have "case New ''pq'' (Arg (slice_ptr test_struct) (Some [Some 3, Some 1])) ?m of
      Inl e \<Rightarrow> False
    | Inr (Panic h0) \<Rightarrow> False
    | Inr (Ok u h0) \<Rightarrow> pt h0 = PtrTo (StructOf test_struct)
        \<and> value_of (run (=) (=) (map OpPush ?us @ replicate (length ?us) OpPop) h0)
          = Some [Iface (PtrTo (StructOf test_struct)) (Some 4),
                  Iface (PtrTo (StructOf test_struct)) (Some 3)]"
    by code_simp
  then obtain h0 where
    n: "New ''pq'' (Arg (slice_ptr test_struct) (Some [Some 3, Some 1])) ?m = Inr (Ok () h0)"
    and p: "pt h0 = PtrTo (StructOf test_struct)"
    and v: "value_of (run (=) (=) (map OpPush ?us @ replicate (length ?us) OpPop) h0)
          = Some [Iface (PtrTo (StructOf test_struct)) (Some 4),
                  Iface (PtrTo (StructOf test_struct)) (Some 3)]"
    by (auto split: sum.splits outcome.splits)
  have tm: "typed_memory test_struct ?m"
    by (auto simp: typed_memory_def test_struct_def less_Suc_eq)
  have kn: "keys_not_nan ''pq'' test_struct ?m"
    by (auto simp: keys_not_nan_def test_struct_def less_Suc_eq)
  from p have pu: "\<forall>u \<in> set ?us. pushable (=) h0 u" by simp
  from pops_sorted[OF tm kn _ n pu, of "(=)"] obtain rs h where
    r: "run (=) (=) (map OpPush ?us @ replicate (length ?us) OpPop) h0 = Ok rs h"
    and s: "pop_sorted h rs" by auto
  from r v have "rs = [Iface (PtrTo (StructOf test_struct)) (Some 4),
                Iface (PtrTo (StructOf test_struct)) (Some 3)]" by simp
  with tm kn n r s show ?thesis by blast
qed

end
